theory Spec2Isabelle
  imports Main
begin

section \<open>Python strings\<close>

text \<open>
  File names are Python \<open>str\<close> values. They are modelled as \<open>string\<close>, one \<open>char\<close> per
  code point, which covers the code points below 256 (Latin-1). On that range
  \<open>str.lower\<close> shifts \<open>A\<close>..\<open>Z\<close> and U+00C0..U+00DE (without the multiplication
  sign U+00D7) by 32, and \<open>str.strip\<close> removes the characters for which \<open>str.isspace\<close>
  holds: U+0009..U+000D, U+001C..U+0020, U+0085 and U+00A0.
\<close>

definition py_lower_char :: "char \<Rightarrow> char" where
  "py_lower_char c =
     (let n = (of_char c :: nat)
      in if (65 \<le> n \<and> n \<le> 90) \<or> (192 \<le> n \<and> n \<le> 222 \<and> n \<noteq> 215)
         then char_of (n + 32) else c)"

definition py_lower :: "string \<Rightarrow> string" where
  "py_lower s = map py_lower_char s"

definition py_isspace :: "char \<Rightarrow> bool" where
  "py_isspace c =
     ((of_char c :: nat) \<in> set [9, 10, 11, 12, 13, 28, 29, 30, 31, 32, 133, 160])"

definition py_strip :: "string \<Rightarrow> string" where
  "py_strip s = rev (dropWhile py_isspace (rev (dropWhile py_isspace s)))"

definition py_endswith :: "string \<Rightarrow> string \<Rightarrow> bool" where
  "py_endswith s suffix =
     (length suffix \<le> length s \<and> drop (length s - length suffix) s = suffix)"

text \<open>The operator \<open>sub in s\<close> on strings.\<close>

primrec py_in :: "string \<Rightarrow> string \<Rightarrow> bool" where
  "py_in sub [] = (sub = [])"
| "py_in sub (c # cs) = (take (length sub) (c # cs) = sub \<or> py_in sub cs)"

text \<open>Truth value of a \<open>str\<close> or \<open>None\<close>: both \<open>None\<close> and the empty string are false.\<close>

fun truthy :: "string option \<Rightarrow> bool" where
  "truthy None = False"
| "truthy (Some s) = (s \<noteq> [])"

section \<open>The file name sanitizer\<close>

text \<open>The character class \<open>[<>:"/\\|?*,]\<close> of the regular expression.\<close>

definition forbidden :: "char \<Rightarrow> bool" where
  "forbidden c =
     (c \<in> set [CHR ''<'', CHR ''>'', CHR '':'', CHR 0x22, CHR ''/'', CHR 0x5C,
               CHR ''|'', CHR ''?'', CHR ''*'', CHR '',''])"

text \<open>\<open>re.sub\<close> with that class and the replacement \<open>_\<close>: every match is one character.\<close>

definition re_sub_forbidden :: "string \<Rightarrow> string" where
  "re_sub_forbidden s = map (\<lambda>c. if forbidden c then CHR ''_'' else c) s"

text \<open>\<open>DropboxDownloader.sanitize_filename\<close>; the argument and the result may be \<open>None\<close>.\<close>

fun sanitize_filename :: "string option \<Rightarrow> string option" where
  "sanitize_filename None = None"
| "sanitize_filename (Some filename) =
     (if filename = [] then None
      else if py_lower filename = ''file, f1-00094_76399_0000000000_ssr.cwa''
        then Some ''f1-00094_76399_0000000000_ssr.cwa''
      else Some (py_strip (re_sub_forbidden filename)))"

text \<open>
  The words of the specification: the legacy name as it is spelled there, and equality
  of two names under case-insensitive comparison.
\<close>

definition legacy_name :: string where
  "legacy_name = ''File, F1-00094_76399_0000000000_SSR.cwa''"

definition legacy_target :: string where
  "legacy_target = ''f1-00094_76399_0000000000_ssr.cwa''"

definition equal_ignoring_case :: "string \<Rightarrow> string \<Rightarrow> bool" where
  "equal_ignoring_case a b = (py_lower a = py_lower b)"

section \<open>The collaborators: browser driver, file system, clock, log\<close>

text \<open>
  The Selenium driver, the file system and the operator are outside the program. Every
  call the program makes on them is recorded in a history (newest call first), and an
  environment answers each call from the history before it: whether the call raises,
  and what it returns.
\<close>

datatype exn =
    KeyboardInterrupt
  | TimeoutException
  | NoSuchElementException
  | WebDriverException
  | AttributeError
  | OSError
  | Exception string

text \<open>\<open>except Exception\<close> catches everything but \<open>KeyboardInterrupt\<close>; a bare
  \<open>except:\<close> catches everything.\<close>

definition is_Exception :: "exn \<Rightarrow> bool" where
  "is_Exception e = (e \<noteq> KeyboardInterrupt)"

type_synonym elem = nat

datatype By = CSS_SELECTOR | XPATH | TAG_NAME

datatype key = RETURN | ESCAPE

datatype call =
    Read_csv string
  | Makedirs string
  | Chrome
  | Maximize_window
  | Get string
  | Input string
  | Wait_presence_any "string list"
  | Wait_clickable By string
  | Find_element By string
  | Find_elements By string
  | Find_child elem By string
  | Text elem
  | Get_attribute elem string
  | Click elem
  | Execute_script string elem
  | Context_click elem
  | Double_click elem
  | Clear elem
  | Send_keys elem string
  | Send_key elem key
  | Back
  | Quit
  | Path_exists string
  | Sleep nat

record env =
  raises :: "call list \<Rightarrow> call \<Rightarrow> exn option"
  element :: "call list \<Rightarrow> call \<Rightarrow> elem"
  element_list :: "call list \<Rightarrow> call \<Rightarrow> elem list"
  text_value :: "call list \<Rightarrow> call \<Rightarrow> string"
  attribute_value :: "call list \<Rightarrow> call \<Rightarrow> string option"
  csv_column :: "call list \<Rightarrow> call \<Rightarrow> string list"
  file_exists :: "call list \<Rightarrow> string \<Rightarrow> bool"
  path_join :: "string \<Rightarrow> string \<Rightarrow> string"

datatype level = INFO | WARNING | ERROR | STDOUT

datatype arg = Str string | Num nat | Exn exn | Opt "string option"

text \<open>
  The run state: the fields of the one \<open>DropboxDownloader\<close> object that change or are
  read (\<open>keyword\<close>, \<open>download_folder\<close>, whether \<open>driver\<close> is set), the clock in
  seconds, the history of calls and the log (message template and arguments), both
  newest first.
\<close>

record world =
  keyword :: string
  download_folder :: string
  driver :: bool
  clock :: nat
  hist :: "call list"
  logs :: "(level \<times> string \<times> arg list) list"

definition record_call :: "call \<Rightarrow> world \<Rightarrow> world" where
  "record_call c w = w\<lparr>hist := c # hist w\<rparr>"

text \<open>A call with an answer of type \<open>'a\<close>: it raises or returns what the environment says.\<close>

definition ask :: "env \<Rightarrow> (call list \<Rightarrow> call \<Rightarrow> 'a) \<Rightarrow> call \<Rightarrow> world \<Rightarrow> (exn + 'a) \<times> world" where
  "ask E answer c w =
     ((case raises E (hist w) c of Some e \<Rightarrow> Inl e | None \<Rightarrow> Inr (answer (hist w) c)),
      record_call c w)"

definition invoke :: "env \<Rightarrow> call \<Rightarrow> world \<Rightarrow> (exn + unit) \<times> world" where
  "invoke E c w = ask E (\<lambda>h c. ()) c w"

text \<open>\<open>os.path.exists\<close> does not raise.\<close>

definition path_exists :: "env \<Rightarrow> string \<Rightarrow> world \<Rightarrow> bool \<times> world" where
  "path_exists E p w = (file_exists E (hist w) p, record_call (Path_exists p) w)"

text \<open>\<open>time.sleep\<close>: the clock advances by the seconds slept; no other call takes time.\<close>

definition sleep :: "nat \<Rightarrow> world \<Rightarrow> world" where
  "sleep n w = w\<lparr>clock := clock w + n, hist := Sleep n # hist w\<rparr>"

text \<open>The logger runs at level INFO: \<open>logger.debug\<close> writes nothing and is left out.\<close>

definition log :: "level \<Rightarrow> string \<Rightarrow> arg list \<Rightarrow> world \<Rightarrow> world" where
  "log lvl msg args w = w\<lparr>logs := (lvl, msg, args) # logs w\<rparr>"

section \<open>Locating the search input\<close>

definition search_selectors :: "string list" where
  "search_selectors =
     [''[data-testid='search-input']'',
      ''input[placeholder*='Search']'',
      ''.search-input'',
      ''input[type='search']'',
      ''#search-input'']"

text \<open>The loop of \<open>get_search_input\<close> over the selectors that are left.\<close>

primrec get_search_input_from :: "env \<Rightarrow> string list \<Rightarrow> world \<Rightarrow> elem option \<times> world" where
  "get_search_input_from E [] w = (None, w)"
| "get_search_input_from E (selector # rest) w =
     (case ask E (element E) (Wait_clickable CSS_SELECTOR selector) w of
        (Inr search_input, w1) \<Rightarrow> (Some search_input, w1)
      | (Inl e, w1) \<Rightarrow> get_search_input_from E rest w1)"

definition get_search_input :: "env \<Rightarrow> world \<Rightarrow> elem option \<times> world" where
  "get_search_input E w = get_search_input_from E search_selectors w"

section \<open>Clearing the search context\<close>

definition clear_selectors :: "string list" where
  "clear_selectors =
     [''[data-testid='search-clear-button']'',
      ''.search-clear-button'',
      ''button[title*='Clear']'',
      ''button[aria-label*='Clear']'']"

text \<open>The loop over the clear buttons; \<open>True\<close> when one was found and clicked.\<close>

primrec click_clear_button :: "env \<Rightarrow> string list \<Rightarrow> world \<Rightarrow> bool \<times> world" where
  "click_clear_button E [] w = (False, w)"
| "click_clear_button E (selector # rest) w =
     (case ask E (element E) (Find_element CSS_SELECTOR selector) w of
        (Inl e, w1) \<Rightarrow> click_clear_button E rest w1
      | (Inr clear_button, w1) \<Rightarrow>
          (case invoke E (Click clear_button) w1 of
             (Inl e, w2) \<Rightarrow> click_clear_button E rest w2
           | (Inr u, w2) \<Rightarrow> (True, sleep 1 (log INFO ''Cleared search context'' [] w2))))"

definition clear_failed :: "exn \<Rightarrow> world \<Rightarrow> (exn + bool) \<times> world" where
  "clear_failed e w =
     (if is_Exception e
      then (Inr False, log WARNING ''Error clearing search context: {}'' [Exn e] w)
      else (Inl e, w))"

definition clear_search_context :: "env \<Rightarrow> world \<Rightarrow> (exn + bool) \<times> world" where
  "clear_search_context E w =
     (case click_clear_button E clear_selectors w of
        (True, w1) \<Rightarrow> (Inr True, w1)
      | (False, w1) \<Rightarrow>
          (case get_search_input E w1 of
             (Some search_input, w2) \<Rightarrow>
               (case invoke E (Clear search_input) w2 of
                  (Inl e, w3) \<Rightarrow> clear_failed e w3
                | (Inr u, w3) \<Rightarrow>
                    (case invoke E (Send_key search_input ESCAPE) w3 of
                       (Inl e, w4) \<Rightarrow> clear_failed e w4
                     | (Inr u, w4) \<Rightarrow>
                         (Inr True,
                          sleep 1 (log INFO ''Cleared search context via search input'' [] w4))))
           | (None, w2) \<Rightarrow>
               (Inr False,
                log WARNING ''Could not find clear button or search input to clear context'' []
                  w2)))"

section \<open>Verifying a download\<close>

text \<open>What an iteration of the polling loop does after the expected file was not there.\<close>

definition note_partial :: "env \<Rightarrow> string \<Rightarrow> world \<Rightarrow> world" where
  "note_partial E expected_path w =
     (case path_exists E (expected_path @ ''.crdownload'') w of
        (True, w1) \<Rightarrow> log INFO ''Download in progress: {}.crdownload'' [Str expected_path] w1
      | (False, w1) \<Rightarrow> w1)"

text \<open>The \<open>while\<close> loop of \<open>verify_download\<close>; \<open>time.time()\<close> reads the clock.\<close>

function verify_poll :: "env \<Rightarrow> string \<Rightarrow> nat \<Rightarrow> int \<Rightarrow> world \<Rightarrow> bool \<times> world" where
  "verify_poll E expected_path start_time timeout w =
     (if int (clock w) - int start_time < timeout
      then (case path_exists E expected_path w of
              (True, w1) \<Rightarrow> (True, log INFO ''Download verified: {}'' [Str expected_path] w1)
            | (False, w1) \<Rightarrow>
                verify_poll E expected_path start_time timeout
                  (sleep 1 (note_partial E expected_path w1)))
      else (False, log WARNING ''Download not found: {}'' [Str expected_path] w))"
  by pat_completeness auto
termination
  by (relation "measure (\<lambda>(E, p, start_time, timeout, w).
                   nat (timeout - (int (clock w) - int start_time)))")
     (auto simp add: sleep_def note_partial_def path_exists_def record_call_def log_def
           split: bool.splits)

definition verify_download :: "env \<Rightarrow> string \<Rightarrow> int \<Rightarrow> world \<Rightarrow> bool \<times> world" where
  "verify_download E filename timeout w =
     (case sanitize_filename (Some filename) of
        None \<Rightarrow> (False, w)
      | Some sanitized_filename \<Rightarrow>
          if sanitized_filename = [] then (False, w)
          else verify_poll E (path_join E (download_folder w) sanitized_filename)
                 (clock w) timeout w)"

section \<open>Attempting a download\<close>

definition max_attempts :: nat where
  "max_attempts = 2"

definition download_selectors :: "string list" where
  "download_selectors =
     [''[data-testid='download-menu-item']'',
      ''span:contains('Download')'',
      ''.download-option'',
      ''*[title*='Download']'',
      ''*[aria-label*='Download']'',
      ''button[class*='download']'',
      ''[role='menuitem'][data-action*='download']'']"

text \<open>\<open>x.click()\<close>, and the click through JavaScript when that raises.\<close>

definition click_or_script :: "env \<Rightarrow> elem \<Rightarrow> world \<Rightarrow> (exn + unit) \<times> world" where
  "click_or_script E x w =
     (case invoke E (Click x) w of
        (Inr u, w1) \<Rightarrow> (Inr (), w1)
      | (Inl e, w1) \<Rightarrow> invoke E (Execute_script ''arguments[0].click();'' x) w1)"

definition find_download_option :: "env \<Rightarrow> string \<Rightarrow> world \<Rightarrow> (exn + elem) \<times> world" where
  "find_download_option E download_selector w =
     (if py_in ''contains'' download_selector
      then ask E (element E) (Find_element XPATH ''//span[contains(text(), 'Download')]'') w
      else ask E (element E) (Find_element CSS_SELECTOR download_selector) w)"

text \<open>
  The loop over the entries of the context menu (the first strategy). The result is
  \<open>True\<close> when the function returned \<open>True\<close> from inside the loop.
\<close>

primrec context_menu_download ::
  "env \<Rightarrow> string \<Rightarrow> string option \<Rightarrow> nat \<Rightarrow> nat \<Rightarrow> string list \<Rightarrow> world \<Rightarrow> bool \<times> world" where
  "context_menu_download E file_name sanitized_file_name index attempt [] w = (False, w)"
| "context_menu_download E file_name sanitized_file_name index attempt
     (download_selector # rest) w =
     (case find_download_option E download_selector w of
        (Inl e, w1) \<Rightarrow>
          context_menu_download E file_name sanitized_file_name index attempt rest w1
      | (Inr download_option, w1) \<Rightarrow>
          (case click_or_script E download_option w1 of
             (Inl e, w2) \<Rightarrow>
               context_menu_download E file_name sanitized_file_name index attempt rest w2
           | (Inr u, w2) \<Rightarrow>
               (case verify_download E file_name 30
                       (log INFO ''Initiated download for .cwa file {} ({}) on attempt {}''
                          [Num (index + 1), Opt sanitized_file_name, Num attempt] w2) of
                  (True, w3) \<Rightarrow> (True, w3)
                | (False, w3) \<Rightarrow>
                    context_menu_download E file_name sanitized_file_name index attempt rest
                      (log WARNING ''Download verification failed for {} on attempt {}''
                         [Opt sanitized_file_name, Num attempt] w3))))"

definition file_view_failed :: "nat \<Rightarrow> world \<Rightarrow> bool \<times> world" where
  "file_view_failed attempt w =
     (False, log WARNING ''Could not download via file view on attempt {}'' [Num attempt] w)"

text \<open>
  The second strategy: open the file and use the download button of its view. Every
  exception inside goes to the one bare \<open>except\<close> around it.
\<close>

definition file_view_download ::
  "env \<Rightarrow> elem \<Rightarrow> string \<Rightarrow> string option \<Rightarrow> nat \<Rightarrow> nat \<Rightarrow> world \<Rightarrow> bool \<times> world" where
  "file_view_download E file_element file_name sanitized_file_name index attempt w =
     (case invoke E (Double_click file_element) w of
        (Inl e, w1) \<Rightarrow> file_view_failed attempt w1
      | (Inr u, w1) \<Rightarrow>
          (case ask E (element E)
                  (Find_element XPATH
                     ''//button[contains(text(), 'Download') or @title='Download' or @aria-label='Download']'')
                  (sleep 2 w1) of
             (Inl e, w2) \<Rightarrow> file_view_failed attempt w2
           | (Inr download_btn, w2) \<Rightarrow>
               (case click_or_script E download_btn w2 of
                  (Inl e, w3) \<Rightarrow> file_view_failed attempt w3
                | (Inr u, w3) \<Rightarrow>
                    (case verify_download E file_name 30
                            (log INFO ''Downloaded .cwa file {} ({}) via file view on attempt {}''
                               [Num (index + 1), Opt sanitized_file_name, Num attempt] w3) of
                       (True, w4) \<Rightarrow>
                         (case invoke E Back w4 of
                            (Inl e, w5) \<Rightarrow> file_view_failed attempt w5
                          | (Inr u, w5) \<Rightarrow> (True, sleep 2 w5))
                     | (False, w4) \<Rightarrow>
                         (case invoke E Back
                                 (log WARNING
                                    ''Download verification failed for {} via file view on attempt {}''
                                    [Opt sanitized_file_name, Num attempt] w4) of
                            (Inl e, w5) \<Rightarrow> file_view_failed attempt w5
                          | (Inr u, w5) \<Rightarrow> (False, sleep 2 w5))))))"

text \<open>
  The \<open>try\<close> block of one attempt: \<open>Inr True\<close> when it returned \<open>True\<close>, \<open>Inr False\<close> when
  control reaches the code after the block, \<open>Inl\<close> when an exception leaves it.
\<close>

definition download_attempt ::
  "env \<Rightarrow> elem \<Rightarrow> string \<Rightarrow> string option \<Rightarrow> nat \<Rightarrow> nat \<Rightarrow> world \<Rightarrow> (exn + bool) \<times> world" where
  "download_attempt E file_element file_name sanitized_file_name index attempt w =
     (case invoke E (Context_click file_element) w of
        (Inl e, w1) \<Rightarrow>
          if is_Exception e
          then (Inr False,
                log WARNING ''Download attempt {} failed for file {} ({}): {}''
                  [Num attempt, Num (index + 1), Opt sanitized_file_name, Exn e] w1)
          else (Inl e, w1)
      | (Inr u, w1) \<Rightarrow>
          (case context_menu_download E file_name sanitized_file_name index attempt
                  download_selectors (sleep 1 w1) of
             (True, w2) \<Rightarrow> (Inr True, w2)
           | (False, w2) \<Rightarrow>
               (case file_view_download E file_element file_name sanitized_file_name index
                       attempt w2 of
                  (b, w3) \<Rightarrow> (Inr b, w3))))"

text \<open>Closing any context menu by a click on the page body.\<close>

definition close_menus :: "env \<Rightarrow> world \<Rightarrow> world" where
  "close_menus E w =
     (case ask E (element E) (Find_element TAG_NAME ''body'') w of
        (Inl e, w1) \<Rightarrow> w1
      | (Inr body, w1) \<Rightarrow>
          (case invoke E (Click body) w1 of
             (Inl e, w2) \<Rightarrow> w2
           | (Inr u, w2) \<Rightarrow> sleep 1 w2))"

definition before_retry :: "nat \<Rightarrow> string option \<Rightarrow> nat \<Rightarrow> world \<Rightarrow> world" where
  "before_retry index sanitized_file_name attempt w =
     (if attempt < max_attempts
      then sleep 2 (log INFO ''Retrying download for file {} ({})...''
                      [Num (index + 1), Opt sanitized_file_name] w)
      else w)"

text \<open>The \<open>for attempt in range(1, max_attempts + 1)\<close> loop over the attempts left.\<close>

primrec attempt_loop ::
  "env \<Rightarrow> elem \<Rightarrow> string \<Rightarrow> string option \<Rightarrow> nat \<Rightarrow> nat list \<Rightarrow> world \<Rightarrow> (exn + bool) \<times> world" where
  "attempt_loop E file_element file_name sanitized_file_name index [] w =
     (Inr False,
      log WARNING ''Could not download .cwa file {} ({}) after {} attempts''
        [Num (index + 1), Opt sanitized_file_name, Num max_attempts] w)"
| "attempt_loop E file_element file_name sanitized_file_name index (attempt # rest) w =
     (case download_attempt E file_element file_name sanitized_file_name index attempt w of
        (Inl e, w1) \<Rightarrow> (Inl e, w1)
      | (Inr True, w1) \<Rightarrow> (Inr True, w1)
      | (Inr False, w1) \<Rightarrow>
          attempt_loop E file_element file_name sanitized_file_name index rest
            (before_retry index sanitized_file_name attempt (close_menus E w1)))"

definition attempt_download ::
  "env \<Rightarrow> elem \<Rightarrow> string \<Rightarrow> nat \<Rightarrow> world \<Rightarrow> (exn + bool) \<times> world" where
  "attempt_download E file_element file_name index w =
     attempt_loop E file_element file_name (sanitize_filename (Some file_name)) index
       [1 ..< max_attempts + 1] w"

section \<open>Searching a keyword and downloading the results\<close>

definition file_selectors :: "string list" where
  "file_selectors =
     [''[data-testid='virtual-list-item']'',
      ''.file-row'',
      ''.brws-file-name-cell'',
      ''[role='row']'',
      ''.sl-react-shared-file-row'']"

definition name_selectors :: "string list" where
  "name_selectors =
     [''.brws-file-name-cell-filename'',
      ''.file-name'',
      ''span[data-testid='file-name']'',
      ''[data-testid='file-name-text']'',
      ''.mc-media-cell-text'',
      ''span[class*='file-name']'',
      ''.brws-file-name'',
      ''[class*='filename']'',
      ''.mc-media-row-main-content'',
      ''[data-testid*='file-row'] span'']"

definition name_attributes :: "string list" where
  "name_attributes = [''title'', ''aria-label'', ''data-filename'', ''data-testid'']"

text \<open>The loop over \<open>file_selectors\<close>: the first non-empty list of rows, else the empty list.\<close>

primrec find_file_rows :: "env \<Rightarrow> string list \<Rightarrow> world \<Rightarrow> elem list \<times> world" where
  "find_file_rows E [] w = ([], w)"
| "find_file_rows E (selector # rest) w =
     (case ask E (element_list E) (Find_elements CSS_SELECTOR selector) w of
        (Inl e, w1) \<Rightarrow> find_file_rows E rest w1
      | (Inr files_found, w1) \<Rightarrow>
          if files_found \<noteq> []
          then (files_found, log INFO ''Found files using selector: {}'' [Str selector] w1)
          else find_file_rows E rest w1)"

text \<open>The loop over \<open>name_selectors\<close> inside a row; \<open>file_name\<close> stays \<open>None\<close> when no
  selector gives a text.\<close>

primrec find_file_name :: "env \<Rightarrow> elem \<Rightarrow> string list \<Rightarrow> world \<Rightarrow> string option \<times> world" where
  "find_file_name E file_element [] w = (None, w)"
| "find_file_name E file_element (name_selector # rest) w =
     (case ask E (element E) (Find_child file_element CSS_SELECTOR name_selector) w of
        (Inl e, w1) \<Rightarrow> find_file_name E file_element rest w1
      | (Inr file_name_element, w1) \<Rightarrow>
          (case ask E (text_value E) (Text file_name_element) w1 of
             (Inl e, w2) \<Rightarrow> find_file_name E file_element rest w2
           | (Inr t, w2) \<Rightarrow>
               (Some (py_lower (py_strip t)),
                log INFO ''Found file name '{}' using selector: {}''
                  [Str (py_lower (py_strip t)), Str name_selector] w2)))"

text \<open>
  The fallback loop over the attributes. The \<open>try\<close> is around the whole loop: an
  exception ends it with \<open>file_name\<close> as it is.
\<close>

primrec name_from_attributes ::
  "env \<Rightarrow> elem \<Rightarrow> string list \<Rightarrow> string option \<Rightarrow> world \<Rightarrow> string option \<times> world" where
  "name_from_attributes E file_element [] file_name w = (file_name, w)"
| "name_from_attributes E file_element (attr # rest) file_name w =
     (case ask E (attribute_value E) (Get_attribute file_element attr) w of
        (Inl e, w1) \<Rightarrow> (file_name, w1)
      | (Inr v, w1) \<Rightarrow>
          (case v of
             None \<Rightarrow> name_from_attributes E file_element rest v w1
           | Some a \<Rightarrow>
               if a \<noteq> []
               then (Some (py_lower (py_strip a)),
                     log INFO ''Found file name '{}' using attribute: {}''
                       [Str (py_lower (py_strip a)), Str attr] w1)
               else name_from_attributes E file_element rest v w1))"

text \<open>The display name derived for a row (the value of \<open>file_name\<close> before it is tested).\<close>

definition derive_file_name :: "env \<Rightarrow> elem \<Rightarrow> world \<Rightarrow> string option \<times> world" where
  "derive_file_name E file_element w =
     (case find_file_name E file_element name_selectors w of
        (file_name, w1) \<Rightarrow>
          if truthy file_name then (file_name, w1)
          else name_from_attributes E file_element name_attributes file_name w1)"

text \<open>Reading \<open>outerHTML\<close> for a debug message, which the logger drops.\<close>

definition debug_html :: "env \<Rightarrow> elem \<Rightarrow> world \<Rightarrow> world" where
  "debug_html E file_element w =
     snd (ask E (attribute_value E) (Get_attribute file_element ''outerHTML'') w)"

text \<open>The body of the loop over the rows, with the running \<open>downloaded_count\<close>.\<close>

definition process_file :: "env \<Rightarrow> nat \<Rightarrow> elem \<Rightarrow> nat \<Rightarrow> world \<Rightarrow> (exn + nat) \<times> world" where
  "process_file E i file_element downloaded_count w =
     (case derive_file_name E file_element w of
        (file_name, w1) \<Rightarrow>
          if \<not> truthy file_name
          then (Inr downloaded_count,
                debug_html E file_element
                  (log WARNING ''Could not determine file name for file {}'' [Num (i + 1)] w1))
          else if \<not> py_endswith (case_option [] id file_name) ''.cwa''
          then (Inr downloaded_count,
                log INFO ''Skipping file {} - does not end with .cwa'' [Opt file_name] w1)
          else
            (case attempt_download E file_element (case_option [] id file_name) i w1 of
               (Inr True, w2) \<Rightarrow> (Inr (downloaded_count + 1), w2)
             | (Inr False, w2) \<Rightarrow> (Inr downloaded_count, w2)
             | (Inl e, w2) \<Rightarrow>
                 if is_Exception e
                 then (Inr downloaded_count,
                       debug_html E file_element
                         (log WARNING ''Error processing file {} for keyword '{}': {}''
                            [Num (i + 1), Str (keyword w2), Exn e] w2))
                 else (Inl e, w2)))"

primrec process_files ::
  "env \<Rightarrow> (nat \<times> elem) list \<Rightarrow> nat \<Rightarrow> world \<Rightarrow> (exn + nat) \<times> world" where
  "process_files E [] downloaded_count w = (Inr downloaded_count, w)"
| "process_files E (row # rest) downloaded_count w =
     (case process_file E (fst row) (snd row) downloaded_count w of
        (Inl e, w1) \<Rightarrow> (Inl e, w1)
      | (Inr c, w1) \<Rightarrow> process_files E rest c w1)"

text \<open>From the test of \<open>files_found\<close> to the end of the \<open>try\<close> block of \<open>search_and_download\<close>.\<close>

definition process_search_results :: "env \<Rightarrow> elem list \<Rightarrow> world \<Rightarrow> (exn + bool) \<times> world" where
  "process_search_results E files_found w =
     (if files_found = []
      then (Inr True, log WARNING ''No files found for keyword: {}'' [Str (keyword w)] w)
      else
        (case process_files E (enumerate 0 (take 5 files_found)) 0
                (log INFO ''Found {} potential results for: {}''
                   [Num (length files_found), Str (keyword w)] w) of
           (Inl e, w1) \<Rightarrow> (Inl e, w1)
         | (Inr downloaded_count, w1) \<Rightarrow>
             (Inr True,
              log INFO ''Completed search for '{}': {} .cwa downloads initiated''
                [Str (keyword w1), Num downloaded_count] w1)))"

definition search_body :: "env \<Rightarrow> world \<Rightarrow> (exn + bool) \<times> world" where
  "search_body E w =
     (case clear_search_context E w of
        (Inl e, w1) \<Rightarrow> (Inl e, w1)
      | (Inr cleared, w1) \<Rightarrow>
          (case get_search_input E w1 of
             (None, w2) \<Rightarrow> (Inr False, log ERROR ''Could not find search input field'' [] w2)
           | (Some search_input, w2) \<Rightarrow>
               (case invoke E (Send_keys search_input (keyword w2)) w2 of
                  (Inl e, w3) \<Rightarrow> (Inl e, w3)
                | (Inr u, w3) \<Rightarrow>
                    (case invoke E (Send_key search_input RETURN) w3 of
                       (Inl e, w4) \<Rightarrow> (Inl e, w4)
                     | (Inr u, w4) \<Rightarrow>
                         (case find_file_rows E file_selectors
                                 (sleep 5 (log INFO ''Searching for: {}'' [Str (keyword w4)] w4)) of
                            (files_found, w5) \<Rightarrow> process_search_results E files_found w5)))))"

definition search_and_download :: "env \<Rightarrow> world \<Rightarrow> (exn + bool) \<times> world" where
  "search_and_download E w =
     (case search_body E w of
        (Inl e, w1) \<Rightarrow>
          if is_Exception e
          then (Inr False,
                log ERROR ''Error searching for keyword '{}': {}'' [Str (keyword w1), Exn e] w1)
          else (Inl e, w1)
      | (Inr b, w1) \<Rightarrow> (Inr b, w1))"

section \<open>The session and the main block\<close>

text \<open>
  The class body of \<open>DropboxDownloader\<close> ends after \<open>search_and_download\<close>: the two
  definitions that follow it in the file, \<open>cleanup\<close> and \<open>run\<close>, start in the first
  column and are functions of the module, not attributes of the class. Looking up
  a method on the object finds the names below and raises \<open>AttributeError\<close> for any
  other name.
\<close>

definition DropboxDownloader_methods :: "string list" where
  "DropboxDownloader_methods =
     [''__init__'', ''setup_driver'', ''login_to_dropbox'', ''clear_search_context'',
      ''get_search_input'', ''sanitize_filename'', ''verify_download'', ''attempt_download'',
      ''search_and_download'']"

definition call_method ::
  "string \<Rightarrow> (world \<Rightarrow> (exn + 'a) \<times> world) \<Rightarrow> world \<Rightarrow> (exn + 'a) \<times> world" where
  "call_method name body w =
     (if name \<in> set DropboxDownloader_methods then body w
      else (Inl AttributeError, w))"

definition DOWNLOAD_FOLDER :: string where
  "DOWNLOAD_FOLDER = ''E:'' @ [CHR 0x5C] @ ''dropbox''"

definition DELAY_BETWEEN_SEARCHES :: nat where
  "DELAY_BETWEEN_SEARCHES = 3"

definition csv_path :: string where
  "csv_path =
     ''C:'' @ [CHR 0x5C] @ ''Users'' @ [CHR 0x5C] @ ''kaiyijin'' @ [CHR 0x5C] @ ''NUS Dropbox''
       @ [CHR 0x5C] @ ''Kaiyi Jin'' @ [CHR 0x5C] @ ''COBRA_Kaiyi'' @ [CHR 0x5C] @ ''ID_Mapping''
       @ [CHR 0x5C] @ ''dropbox_files.csv''"

text \<open>\<open>__init__\<close>; the download folder of the main block is absolute already.\<close>

definition init :: "env \<Rightarrow> string \<Rightarrow> string \<Rightarrow> world \<Rightarrow> (exn + unit) \<times> world" where
  "init E kw folder w =
     (case invoke E (Makedirs folder)
             (w\<lparr>keyword := kw, download_folder := folder, driver := False\<rparr>) of
        (Inl e, w1) \<Rightarrow> (Inl e, w1)
      | (Inr u, w1) \<Rightarrow> (Inr (), log INFO ''Initialized with keyword: {}'' [Str kw] w1))"

definition setup_failed :: "exn \<Rightarrow> world \<Rightarrow> (exn + unit) \<times> world" where
  "setup_failed e w =
     (if is_Exception e
      then (Inl e,
            log ERROR ''Make sure ChromeDriver is installed and in PATH'' []
              (log ERROR ''Error setting up Chrome driver: {}'' [Exn e] w))
      else (Inl e, w))"

definition setup_driver :: "env \<Rightarrow> world \<Rightarrow> (exn + unit) \<times> world" where
  "setup_driver E w =
     (case invoke E Chrome w of
        (Inl e, w1) \<Rightarrow> setup_failed e w1
      | (Inr u, w1) \<Rightarrow>
          (case invoke E Maximize_window (w1\<lparr>driver := True\<rparr>) of
             (Inl e, w2) \<Rightarrow> setup_failed e w2
           | (Inr u, w2) \<Rightarrow> (Inr (), log INFO ''Chrome driver initialized successfully'' [] w2)))"

definition login_banner :: "world \<Rightarrow> world" where
  "login_banner w =
     log STDOUT (replicate 60 (CHR ''='')) []
       (log STDOUT ''3. Press ENTER in this console when login is complete...'' []
         (log STDOUT ''2. Make sure you reach the main Dropbox interface'' []
           (log STDOUT ''1. Complete the SSO login process in the browser window'' []
             (log STDOUT (replicate 60 (CHR ''='')) []
               (log STDOUT ''MANUAL LOGIN REQUIRED'' []
                 (log STDOUT (CHR 0x0A # replicate 60 (CHR ''='')) [] w))))))"

definition login_failed :: "exn \<Rightarrow> world \<Rightarrow> (exn + bool) \<times> world" where
  "login_failed e w =
     (if is_Exception e
      then (Inr False, log ERROR ''Error during login process: {}'' [Exn e] w)
      else (Inl e, w))"

definition login_to_dropbox :: "env \<Rightarrow> world \<Rightarrow> (exn + bool) \<times> world" where
  "login_to_dropbox E w =
     (case invoke E (Get ''https://www.dropbox.com/login'') w of
        (Inl e, w1) \<Rightarrow> login_failed e w1
      | (Inr u, w1) \<Rightarrow>
          (case invoke E (Input ''Press ENTER after completing login...'')
                  (login_banner (log INFO ''Navigated to Dropbox login page'' [] w1)) of
             (Inl e, w2) \<Rightarrow> login_failed e w2
           | (Inr u, w2) \<Rightarrow>
               (case invoke E
                       (Wait_presence_any
                          [''[data-testid='search-input']'', ''input[placeholder*='Search']'',
                           ''.search-input'']) w2 of
                  (Inr u, w3) \<Rightarrow> (Inr True, log INFO ''Successfully logged in to Dropbox'' [] w3)
                | (Inl e, w3) \<Rightarrow>
                    if e = TimeoutException
                    then (Inr False,
                          log ERROR
                            ''Could not find search input. Please make sure you're on the main Dropbox page''
                            [] w3)
                    else login_failed e w3)))"

text \<open>The function \<open>cleanup\<close> of the module.\<close>

definition cleanup :: "env \<Rightarrow> world \<Rightarrow> (exn + unit) \<times> world" where
  "cleanup E w =
     (if driver w
      then (case invoke E Quit w of
              (Inl e, w1) \<Rightarrow> (Inl e, w1)
            | (Inr u, w1) \<Rightarrow> (Inr (), log INFO ''Browser closed and resources cleaned up'' [] w1))
      else (Inr (), w))"

text \<open>The body of the loop over the keywords, with its \<open>try\<close> and \<open>except Exception\<close>.\<close>

definition keyword_step :: "env \<Rightarrow> string \<Rightarrow> world \<Rightarrow> (exn + unit) \<times> world" where
  "keyword_step E kw w =
     (case call_method ''search_and_download'' (search_and_download E) (w\<lparr>keyword := kw\<rparr>) of
        (Inl e, w1) \<Rightarrow>
          if is_Exception e
          then (Inr (), log ERROR ''Error processing keyword '{}': {}'' [Str kw, Exn e] w1)
          else (Inl e, w1)
      | (Inr True, w1) \<Rightarrow>
          (Inr (), sleep DELAY_BETWEEN_SEARCHES
                     (log INFO ''Successfully processed keyword: {}'' [Str kw] w1))
      | (Inr False, w1) \<Rightarrow>
          (Inr (), sleep DELAY_BETWEEN_SEARCHES
                     (log ERROR ''Failed to process keyword: {}'' [Str kw] w1)))"

primrec keyword_loop :: "env \<Rightarrow> string list \<Rightarrow> world \<Rightarrow> (exn + unit) \<times> world" where
  "keyword_loop E [] w = (Inr (), w)"
| "keyword_loop E (kw # rest) w =
     (case keyword_step E kw w of
        (Inl e, w1) \<Rightarrow> (Inl e, w1)
      | (Inr u, w1) \<Rightarrow> keyword_loop E rest w1)"

text \<open>The inner \<open>try\<close> block of the main block: set up, log in once, all keywords.\<close>

definition session :: "env \<Rightarrow> string list \<Rightarrow> world \<Rightarrow> (exn + unit) \<times> world" where
  "session E keywords w =
     (case call_method ''setup_driver'' (setup_driver E) w of
        (Inl e, w1) \<Rightarrow> (Inl e, w1)
      | (Inr u, w1) \<Rightarrow>
          (case call_method ''login_to_dropbox'' (login_to_dropbox E) w1 of
             (Inl e, w2) \<Rightarrow> (Inl e, w2)
           | (Inr False, w2) \<Rightarrow> (Inl (Exception ''Failed to login to Dropbox''), w2)
           | (Inr True, w2) \<Rightarrow> keyword_loop E keywords w2))"

text \<open>\<open>try: ... finally: ...\<close>: the final block runs on every exit of the body; an
  exception it raises replaces the outcome of the body.\<close>

definition try_finally ::
  "(exn + 'a) \<times> world \<Rightarrow> (world \<Rightarrow> (exn + unit) \<times> world) \<Rightarrow> (exn + 'a) \<times> world" where
  "try_finally r final =
     (case r of
        (outcome, w) \<Rightarrow>
          (case final w of
             (Inl e, w1) \<Rightarrow> (Inl e, w1)
           | (Inr u, w1) \<Rightarrow> (outcome, w1)))"

definition main_failed :: "exn \<Rightarrow> world \<Rightarrow> (exn + unit) \<times> world" where
  "main_failed e w =
     (if is_Exception e
      then (Inr (),
            log STDOUT ''3. Provided the correct CSV file path with a 'filename' column'' []
              (log STDOUT ''2. ChromeDriver is installed and in your PATH'' []
                (log STDOUT ''1. Installed the required packages: pip install selenium pandas'' []
                  (log STDOUT (CHR 0x0A # ''Make sure you have:'') []
                    (log STDOUT ''Error: {}'' [Exn e] w)))))
      else (Inl e, w))"

text \<open>The block under \<open>if __name__ == "__main__"\<close>.\<close>

definition main :: "env \<Rightarrow> world \<Rightarrow> (exn + unit) \<times> world" where
  "main E w =
     (case ask E (csv_column E) (Read_csv csv_path) w of
        (Inl e, w1) \<Rightarrow> main_failed e w1
      | (Inr keywords, w1) \<Rightarrow>
          (case keywords of
             [] \<Rightarrow> (Inr (), w1)
           | first_keyword # others \<Rightarrow>
               (case init E first_keyword DOWNLOAD_FOLDER w1 of
                  (Inl e, w2) \<Rightarrow> main_failed e w2
                | (Inr u, w2) \<Rightarrow>
                    (case try_finally (session E keywords w2)
                            (call_method ''cleanup'' (cleanup E)) of
                       (Inl e, w3) \<Rightarrow> main_failed e w3
                     | (Inr u, w3) \<Rightarrow> (Inr (), w3)))))"

section \<open>Reading the history\<close>

text \<open>The calls made between two states of a run, newest first.\<close>

definition calls_between :: "world \<Rightarrow> world \<Rightarrow> call list" where
  "calls_between w w' = take (length (hist w') - length (hist w)) (hist w')"

text \<open>From \<open>w\<close> to \<open>w'\<close> the history was only extended, and by calls that satisfy \<open>P\<close>.\<close>

definition calls_only :: "(call \<Rightarrow> bool) \<Rightarrow> world \<Rightarrow> world \<Rightarrow> bool" where
  "calls_only P w w' =
     (hist w' = calls_between w w' @ hist w \<and> list_all P (calls_between w w'))"

text \<open>The calls that read the name of the row \<open>file_element\<close>.\<close>

definition name_probe :: "elem \<Rightarrow> call \<Rightarrow> bool" where
  "name_probe file_element c =
     (case c of
        Find_child x b s \<Rightarrow> x = file_element
      | Text x \<Rightarrow> True
      | Get_attribute x a \<Rightarrow> x = file_element
      | _ \<Rightarrow> False)"

text \<open>The calls of a download attempt on the row \<open>file_element\<close>.\<close>

definition attempt_call :: "elem \<Rightarrow> call \<Rightarrow> bool" where
  "attempt_call file_element c =
     (case c of
        Context_click x \<Rightarrow> x = file_element
      | Double_click x \<Rightarrow> x = file_element
      | Find_element b s \<Rightarrow> True
      | Click x \<Rightarrow> True
      | Execute_script s x \<Rightarrow> True
      | Back \<Rightarrow> True
      | Path_exists p \<Rightarrow> True
      | Sleep n \<Rightarrow> True
      | _ \<Rightarrow> False)"

text \<open>The calls that processing the row \<open>file_element\<close> may make.\<close>

definition row_call :: "elem \<Rightarrow> call \<Rightarrow> bool" where
  "row_call file_element c = (name_probe file_element c \<or> attempt_call file_element c)"

text \<open>The calls made on a row itself: looking inside it, reading its attributes,
  opening its context menu, opening it.\<close>

definition touches :: "elem \<Rightarrow> call \<Rightarrow> bool" where
  "touches x c =
     (case c of
        Find_child y b s \<Rightarrow> y = x
      | Get_attribute y a \<Rightarrow> y = x
      | Context_click y \<Rightarrow> y = x
      | Double_click y \<Rightarrow> y = x
      | _ \<Rightarrow> False)"

text \<open>The calls that look an element up by a selector.\<close>

definition is_lookup :: "call \<Rightarrow> bool" where
  "is_lookup c =
     (case c of
        Wait_clickable b s \<Rightarrow> True
      | Find_element b s \<Rightarrow> True
      | Find_elements b s \<Rightarrow> True
      | Find_child x b s \<Rightarrow> True
      | _ \<Rightarrow> False)"

text \<open>The lookup that the download loop of the context menu makes for a selector.\<close>

definition download_lookup :: "string \<Rightarrow> call" where
  "download_lookup download_selector =
     (if py_in ''contains'' download_selector
      then Find_element XPATH ''//span[contains(text(), 'Download')]''
      else Find_element CSS_SELECTOR download_selector)"

text \<open>An environment in which no call is interrupted from the keyboard.\<close>

definition no_interrupt :: "env \<Rightarrow> bool" where
  "no_interrupt E = (\<forall>h c. raises E h c \<noteq> Some KeyboardInterrupt)"

text \<open>
  The state after one iteration of the polling loop that did not find the file, and
  whether the file is there at the \<open>j\<close>-th poll when all polls before missed it.
\<close>

definition poll_miss :: "env \<Rightarrow> string \<Rightarrow> world \<Rightarrow> world" where
  "poll_miss E expected_path w =
     sleep 1 (note_partial E expected_path (snd (path_exists E expected_path w)))"

definition present_at_poll :: "env \<Rightarrow> string \<Rightarrow> nat \<Rightarrow> world \<Rightarrow> bool" where
  "present_at_poll E expected_path j w =
     file_exists E (hist ((poll_miss E expected_path ^^ j) w)) expected_path"

text \<open>Equality of names and of endings when case is ignored.\<close>

definition endswith_ignoring_case :: "string \<Rightarrow> string \<Rightarrow> bool" where
  "endswith_ignoring_case s suffix = py_endswith (py_lower s) (py_lower suffix)"

section \<open>Example environments\<close>

text \<open>A page on which every call succeeds, with no rows, no texts and no files.\<close>

definition base_env :: env where
  "base_env =
     \<lparr>raises = (\<lambda>h c. None), element = (\<lambda>h c. 0), element_list = (\<lambda>h c. []),
      text_value = (\<lambda>h c. []), attribute_value = (\<lambda>h c. None), csv_column = (\<lambda>h c. []),
      file_exists = (\<lambda>h p. False), path_join = (\<lambda>a b. a @ ''/'' @ b)\<rparr>"

definition start :: world where
  "start =
     \<lparr>keyword = ''a.cwa'', download_folder = ''downloads'', driver = True, clock = 0,
      hist = [], logs = []\<rparr>"

definition is_find_element :: "call \<Rightarrow> bool" where
  "is_find_element c = (case c of Find_element b s \<Rightarrow> True | _ \<Rightarrow> False)"

definition is_sleep :: "call \<Rightarrow> bool" where
  "is_sleep c = (case c of Sleep n \<Rightarrow> True | _ \<Rightarrow> False)"

text \<open>No download trigger is on the page: every \<open>find_element\<close> of the driver raises.\<close>

definition env_no_trigger :: env where
  "env_no_trigger =
     base_env\<lparr>raises :=
       (\<lambda>h c. if is_find_element c then Some NoSuchElementException else None)\<rparr>"

text \<open>
  The context menu has no download entry, the file view has a download button, the
  file is in the folder at once, and going back in the browser times out.
\<close>

definition env_back_fails :: env where
  "env_back_fails =
     base_env
       \<lparr>raises :=
          (\<lambda>h c. case c of
             Find_element b s \<Rightarrow>
               if b = XPATH \<and> py_in ''button'' s then None else Some NoSuchElementException
           | Back \<Rightarrow> Some TimeoutException
           | _ \<Rightarrow> None),
        file_exists := (\<lambda>h p. True)\<rparr>"

text \<open>The right click on a row raises a fault of the driver; nothing else does.\<close>

definition env_click_fails :: env where
  "env_click_fails =
     base_env
       \<lparr>raises :=
          (\<lambda>h c. case c of Context_click x \<Rightarrow> Some WebDriverException | _ \<Rightarrow> None)\<rparr>"


text \<open>The file arrives in the folder during the second second of waiting.\<close>

definition env_file_after_two :: env where
  "env_file_after_two =
     base_env\<lparr>file_exists := (\<lambda>h p. 2 \<le> length (filter is_sleep h))\<rparr>"

text \<open>The third search selector is the first that becomes clickable; rows show their
  name under the second name selector.\<close>

definition env_third_selector :: env where
  "env_third_selector =
     base_env
       \<lparr>raises :=
          (\<lambda>h c. case c of
             Wait_clickable b s \<Rightarrow>
               if s = ''.search-input'' then None else Some TimeoutException
           | Find_child x b s \<Rightarrow>
               if s = ''.file-name'' then None else Some NoSuchElementException
           | Find_elements b s \<Rightarrow>
               if s = ''[role='row']'' then None else Some WebDriverException
           | _ \<Rightarrow> None),
        element := (\<lambda>h c. 4),
        element_list := (\<lambda>h c. [11, 12, 13, 14, 15, 16]),
        text_value := (\<lambda>h c. '' Notes.TXT '')\<rparr>"

text \<open>
  A run in which everything works: the list has one keyword, the search shows one
  row named after it, the first entry of the context menu downloads the file.
\<close>

definition env_all_well :: env where
  "env_all_well =
     base_env
       \<lparr>element_list := (\<lambda>h c. [1]),
        text_value := (\<lambda>h c. ''a.cwa''),
        csv_column := (\<lambda>h c. [''a.cwa'']),
        file_exists := (\<lambda>h p. True)\<rparr>"

text \<open>Six rows, each a \<open>.cwa\<close> file that downloads at once.\<close>

definition env_six_rows :: env where
  "env_six_rows =
     base_env
       \<lparr>text_value := (\<lambda>h c. ''a.cwa''),
        file_exists := (\<lambda>h p. True)\<rparr>"

definition before_main :: world where
  "before_main =
     \<lparr>keyword = [], download_folder = [], driver = False, clock = 0, hist = [], logs = []\<rparr>"

section \<open>Properties of the sanitizer\<close>

lemma lower_char_comma: "py_lower_char c = CHR '','' \<Longrightarrow> c = CHR '',''"
proof -
  assume a: "py_lower_char c = CHR '',''"
  have "(of_char (py_lower_char c) :: nat) = 44" using a by simp
  then have "(of_char c :: nat) = 44"
    by (auto simp add: py_lower_char_def Let_def split: if_splits)
  then have "(of_char c :: nat) = of_char (CHR '','')" by simp
  then show ?thesis by (simp only: of_char_eq_iff)
qed

lemma lower_has_comma: "CHR '','' \<in> set (py_lower s) \<Longrightarrow> CHR '','' \<in> set s"
  by (auto simp add: py_lower_def dest: lower_char_comma [OF sym])

lemma lower_char_idem: "py_lower_char (py_lower_char c) = py_lower_char c"
  by (auto simp add: py_lower_char_def Let_def)

lemma lower_idem: "py_lower (py_lower s) = py_lower s"
  by (simp add: py_lower_def lower_char_idem)

lemma lower_legacy_name: "py_lower legacy_name = ''file, f1-00094_76399_0000000000_ssr.cwa''"
  unfolding legacy_name_def py_lower_def by code_simp

lemma isspace_sub: "py_isspace (if forbidden c then CHR ''_'' else c) = py_isspace c"
  by (auto simp add: py_isspace_def forbidden_def)

lemma dropWhile_sub:
  "dropWhile py_isspace (re_sub_forbidden s) = re_sub_forbidden (dropWhile py_isspace s)"
  by (induction s) (simp_all add: re_sub_forbidden_def isspace_sub)

lemma rev_sub: "rev (re_sub_forbidden s) = re_sub_forbidden (rev s)"
  by (simp add: re_sub_forbidden_def rev_map)

lemma strip_sub_commute: "py_strip (re_sub_forbidden s) = re_sub_forbidden (py_strip s)"
  by (simp add: py_strip_def dropWhile_sub rev_sub)

lemma sub_clean: "\<forall>c \<in> set (re_sub_forbidden s). \<not> forbidden c"
  by (auto simp add: re_sub_forbidden_def forbidden_def)

lemma sub_fix: "\<forall>c \<in> set s. \<not> forbidden c \<Longrightarrow> re_sub_forbidden s = s"
  by (induction s) (auto simp add: re_sub_forbidden_def)

lemma set_strip: "set (py_strip s) \<subseteq> set s"
  by (auto simp add: py_strip_def dest!: set_dropWhileD)

lemma last_dropWhile: "dropWhile P xs \<noteq> [] \<Longrightarrow> last (dropWhile P xs) = last xs"
  by (induction xs) (auto split: if_splits)

lemma strip_ends:
  assumes "py_strip s \<noteq> []"
  shows "\<not> py_isspace (hd (py_strip s)) \<and> \<not> py_isspace (last (py_strip s))"
proof -
  define t where "t = dropWhile py_isspace s"
  define u where "u = dropWhile py_isspace (rev t)"
  have su: "py_strip s = rev u" by (simp add: py_strip_def t_def u_def)
  with assms have u: "u \<noteq> []" by simp
  then have t: "t \<noteq> []" by (auto simp add: u_def)
  have "\<not> py_isspace (hd u)" using u unfolding u_def by (rule hd_dropWhile)
  then have l: "\<not> py_isspace (last (rev u))" using u by (simp add: last_rev)
  have "last u = last (rev t)" using u unfolding u_def by (rule last_dropWhile)
  also have "\<dots> = hd t" using t by (simp add: last_rev)
  finally have "hd (rev u) = hd t" using u by (simp add: hd_rev)
  moreover have "\<not> py_isspace (hd t)" using t unfolding t_def by (rule hd_dropWhile)
  ultimately show ?thesis using l su by simp
qed

lemma dropWhile_id: "xs \<noteq> [] \<Longrightarrow> \<not> P (hd xs) \<Longrightarrow> dropWhile P xs = xs"
  by (cases xs) simp_all

lemma strip_fix:
  "s \<noteq> [] \<Longrightarrow> \<not> py_isspace (hd s) \<Longrightarrow> \<not> py_isspace (last s) \<Longrightarrow> py_strip s = s"
  by (simp add: py_strip_def dropWhile_id hd_rev)

text \<open>Stripping removes a run of whitespace at each end and nothing else.\<close>

lemma strip_decomposition:
  "\<exists>pre post. s = pre @ py_strip s @ post
      \<and> (\<forall>c \<in> set pre. py_isspace c) \<and> (\<forall>c \<in> set post. py_isspace c)"
proof -
  define t where "t = dropWhile py_isspace s"
  have "rev (dropWhile py_isspace (rev t)) @ rev (takeWhile py_isspace (rev t)) =
        rev (takeWhile py_isspace (rev t) @ dropWhile py_isspace (rev t))"
    by (simp only: rev_append)
  also have "\<dots> = t" by (simp only: takeWhile_dropWhile_id rev_rev_ident)
  finally have t: "t = py_strip s @ rev (takeWhile py_isspace (rev t))"
    by (simp add: py_strip_def t_def)
  have "s = takeWhile py_isspace s @ t" by (simp add: t_def)
  with t have "s = takeWhile py_isspace s @ py_strip s @ rev (takeWhile py_isspace (rev t))"
    by simp
  moreover have "\<forall>c \<in> set (takeWhile py_isspace s). py_isspace c"
    by (auto dest: set_takeWhileD)
  moreover have "\<forall>c \<in> set (rev (takeWhile py_isspace (rev t))). py_isspace c"
    by (auto dest: set_takeWhileD)
  ultimately show ?thesis by blast
qed

lemma sanitize_empty: "sanitize_filename (Some []) = None"
  by simp

lemma sanitize_target:
  "sanitize_filename (Some ''f1-00094_76399_0000000000_ssr.cwa'') =
     Some ''f1-00094_76399_0000000000_ssr.cwa''"
  by code_simp

lemma sanitize_general_fix:
  assumes "y = py_strip (re_sub_forbidden f)" "y \<noteq> []"
  shows "sanitize_filename (Some y) = Some y"
proof -
  have clean: "\<forall>c \<in> set y. \<not> forbidden c"
    using assms(1) set_strip [of "re_sub_forbidden f"] sub_clean [of f] by auto
  then have "CHR '','' \<notin> set y" by (auto simp add: forbidden_def)
  then have "CHR '','' \<notin> set (py_lower y)" using lower_has_comma by blast
  then have nl: "py_lower y \<noteq> ''file, f1-00094_76399_0000000000_ssr.cwa''" by auto
  have "py_strip y = y"
    using strip_ends [of "re_sub_forbidden f"] assms by (simp add: strip_fix)
  then show ?thesis using nl clean assms(2) by (simp add: sub_fix)
qed

lemma sanitize_twice:
  "sanitize_filename (sanitize_filename x) =
     (if sanitize_filename x = Some [] then None else sanitize_filename x)"
proof (cases x)
  case None
  then show ?thesis by simp
next
  case (Some f)
  then show ?thesis
    using sanitize_general_fix [of "py_strip (re_sub_forbidden f)" f] sanitize_target
      sanitize_empty
    by (auto simp del: sanitize_filename.simps(2) simp add: sanitize_filename.simps(2) [of f])
qed

text \<open>
  Claim C1. A name that equals the legacy name \<open>File, F1-00094_76399_0000000000_SSR.cwa\<close>
  when case is ignored is mapped to \<open>f1-00094_76399_0000000000_ssr.cwa\<close>. Every other
  non-empty name is mapped to itself with each character of the forbidden set
  replaced by \<open>_\<close> and the whitespace at both ends removed: the result is the
  replacement applied to the middle part \<open>mid\<close> of the name, where the name is
  \<open>pre @ mid @ post\<close>, \<open>pre\<close> and \<open>post\<close> are whitespace and \<open>mid\<close> neither starts nor
  ends with whitespace; no forbidden character is left in it.
\<close>

theorem sanitize_filename_legacy_or_clean:
  "(equal_ignoring_case filename legacy_name \<longrightarrow>
      sanitize_filename (Some filename) = Some legacy_target)
   \<and> (filename \<noteq> [] \<and> \<not> equal_ignoring_case filename legacy_name \<longrightarrow>
        (\<exists>pre mid post.
           filename = pre @ mid @ post
           \<and> (\<forall>c \<in> set pre. py_isspace c) \<and> (\<forall>c \<in> set post. py_isspace c)
           \<and> (mid \<noteq> [] \<longrightarrow> \<not> py_isspace (hd mid) \<and> \<not> py_isspace (last mid))
           \<and> sanitize_filename (Some filename) =
                Some (map (\<lambda>c. if forbidden c then CHR ''_'' else c) mid)
           \<and> (\<forall>c \<in> set (map (\<lambda>c. if forbidden c then CHR ''_'' else c) mid).
                 \<not> forbidden c)))"
proof (intro conjI impI)
  assume "equal_ignoring_case filename legacy_name"
  then have l: "py_lower filename = ''file, f1-00094_76399_0000000000_ssr.cwa''"
    by (simp add: equal_ignoring_case_def lower_legacy_name)
  have "filename \<noteq> []"
  proof
    assume "filename = []"
    then have "py_lower filename = []" by (simp add: py_lower_def)
    with l show False by simp
  qed
  with l show "sanitize_filename (Some filename) = Some legacy_target"
    by (simp add: legacy_target_def)
next
  assume a: "filename \<noteq> [] \<and> \<not> equal_ignoring_case filename legacy_name"
  then have nl: "py_lower filename \<noteq> ''file, f1-00094_76399_0000000000_ssr.cwa''"
    by (simp add: equal_ignoring_case_def lower_legacy_name)
  obtain pre post where d: "filename = pre @ py_strip filename @ post"
    "\<forall>c \<in> set pre. py_isspace c" "\<forall>c \<in> set post. py_isspace c"
    using strip_decomposition [of filename] by blast
  have "sanitize_filename (Some filename) = Some (re_sub_forbidden (py_strip filename))"
    using a nl by (simp add: strip_sub_commute)
  then have r: "sanitize_filename (Some filename) =
      Some (map (\<lambda>c. if forbidden c then CHR ''_'' else c) (py_strip filename))"
    by (simp add: re_sub_forbidden_def)
  have c: "\<forall>c \<in> set (map (\<lambda>c. if forbidden c then CHR ''_'' else c) (py_strip filename)).
             \<not> forbidden c"
    using sub_clean [of "py_strip filename"] unfolding re_sub_forbidden_def .
  have e: "py_strip filename \<noteq> [] \<longrightarrow>
      \<not> py_isspace (hd (py_strip filename)) \<and> \<not> py_isspace (last (py_strip filename))"
    by (rule impI) (rule strip_ends)
  show "\<exists>pre mid post.
           filename = pre @ mid @ post
           \<and> (\<forall>c \<in> set pre. py_isspace c) \<and> (\<forall>c \<in> set post. py_isspace c)
           \<and> (mid \<noteq> [] \<longrightarrow> \<not> py_isspace (hd mid) \<and> \<not> py_isspace (last mid))
           \<and> sanitize_filename (Some filename) =
                Some (map (\<lambda>c. if forbidden c then CHR ''_'' else c) mid)
           \<and> (\<forall>c \<in> set (map (\<lambda>c. if forbidden c then CHR ''_'' else c) mid).
                 \<not> forbidden c)"
    apply (rule exI [of _ pre])
    apply (rule exI [of _ "py_strip filename"])
    apply (rule exI [of _ post])
    apply (intro conjI)
         apply (rule d(1))
        apply (rule d(2))
       apply (rule d(3))
      apply (rule e)
     apply (rule r)
    apply (rule c)
    done
qed

theorem sanitize_filename_legacy_or_clean_witness:
  "equal_ignoring_case ''FILE, f1-00094_76399_0000000000_Ssr.CWA'' legacy_name
   \<and> sanitize_filename (Some ''FILE, f1-00094_76399_0000000000_Ssr.CWA'') = Some legacy_target
   \<and> '' re:port,1.cwa '' \<noteq> [] \<and> \<not> equal_ignoring_case '' re:port,1.cwa '' legacy_name
   \<and> (\<exists>pre mid post.
           '' re:port,1.cwa '' = pre @ mid @ post
           \<and> (\<forall>c \<in> set pre. py_isspace c) \<and> (\<forall>c \<in> set post. py_isspace c)
           \<and> (mid \<noteq> [] \<longrightarrow> \<not> py_isspace (hd mid) \<and> \<not> py_isspace (last mid))
           \<and> sanitize_filename (Some '' re:port,1.cwa '') =
                Some (map (\<lambda>c. if forbidden c then CHR ''_'' else c) mid)
           \<and> (\<forall>c \<in> set (map (\<lambda>c. if forbidden c then CHR ''_'' else c) mid).
                 \<not> forbidden c))"
proof -
  have h1: "equal_ignoring_case ''FILE, f1-00094_76399_0000000000_Ssr.CWA'' legacy_name"
    unfolding equal_ignoring_case_def py_lower_def legacy_name_def by code_simp
  have h2: "'' re:port,1.cwa '' \<noteq> [] \<and> \<not> equal_ignoring_case '' re:port,1.cwa '' legacy_name"
    unfolding equal_ignoring_case_def py_lower_def legacy_name_def by code_simp
  note t = sanitize_filename_legacy_or_clean
  from t [of "''FILE, f1-00094_76399_0000000000_Ssr.CWA''", THEN conjunct1, THEN mp, OF h1]
    t [of "'' re:port,1.cwa ''", THEN conjunct2, THEN mp, OF h2] h1 h2
  show ?thesis by (intro conjI) (simp_all only: simp_thms)
qed

text \<open>
  Claim C6, as the code has it. Sanitizing the output of the sanitizer again gives that
  output unchanged whenever the output is not the empty string (this covers \<open>None\<close> and
  the target of the legacy rule). When the output is the empty string, which is the
  case for a name made of whitespace only, sanitizing it again gives \<open>None\<close>.
\<close>

theorem sanitize_filename_idempotent_unless_empty:
  "(sanitize_filename x \<noteq> Some [] \<longrightarrow>
      sanitize_filename (sanitize_filename x) = sanitize_filename x)
   \<and> (sanitize_filename x = Some [] \<longrightarrow> sanitize_filename (sanitize_filename x) = None)"
  using sanitize_twice [of x] by simp

theorem sanitize_filename_idempotent_unless_empty_witness:
  "sanitize_filename (Some legacy_name) \<noteq> Some []
   \<and> sanitize_filename (sanitize_filename (Some legacy_name)) = sanitize_filename (Some legacy_name)
   \<and> sanitize_filename (Some ''  '') = Some []
   \<and> sanitize_filename (sanitize_filename (Some ''  '')) = None"
proof -
  have h1: "sanitize_filename (Some legacy_name) \<noteq> Some []"
    unfolding legacy_name_def by code_simp
  have h2: "sanitize_filename (Some ''  '') = Some []"
    by code_simp
  note t = sanitize_filename_idempotent_unless_empty
  from t [of "Some legacy_name", THEN conjunct1, THEN mp, OF h1]
    t [of "Some ''  ''", THEN conjunct2, THEN mp, OF h2] h1 h2
  show ?thesis by (intro conjI) (simp_all only: simp_thms)
qed

text \<open>The sanitizer is not idempotent at a name made of one blank.\<close>

theorem sanitize_filename_not_idempotent:
  "sanitize_filename (sanitize_filename (Some '' '')) \<noteq> sanitize_filename (Some '' '')"
  by code_simp

declare verify_poll.simps [simp del]

section \<open>Properties of the history\<close>

lemma calls_onlyI: "hist w' = cs @ hist w \<Longrightarrow> list_all P cs \<Longrightarrow> calls_only P w w'"
  unfolding calls_only_def calls_between_def by simp

lemma calls_onlyD: "calls_only P w w' \<Longrightarrow> \<exists>cs. hist w' = cs @ hist w \<and> list_all P cs"
  unfolding calls_only_def by blast

lemma calls_only_refl: "calls_only P w w"
  by (rule calls_onlyI [of _ "[]"]) simp_all

lemma calls_only_trans:
  assumes "calls_only P w w1" "calls_only P w1 w2"
  shows "calls_only P w w2"
proof -
  obtain cs where cs: "hist w1 = cs @ hist w" "list_all P cs"
    using calls_onlyD [OF assms(1)] by blast
  obtain ds where ds: "hist w2 = ds @ hist w1" "list_all P ds"
    using calls_onlyD [OF assms(2)] by blast
  show ?thesis
    by (rule calls_onlyI [of _ "ds @ cs"]) (simp_all add: cs ds)
qed

lemma calls_only_mono:
  assumes "calls_only P w w'" "\<And>c. P c \<Longrightarrow> Q c"
  shows "calls_only Q w w'"
proof -
  obtain cs where cs: "hist w' = cs @ hist w" "list_all P cs"
    using calls_onlyD [OF assms(1)] by blast
  from cs(2) assms(2) have "list_all Q cs" by (auto simp add: list_all_iff)
  with cs(1) show ?thesis by (rule calls_onlyI)
qed

lemma calls_only_hist: "hist w2 = hist w1 \<Longrightarrow> calls_only P w w2 = calls_only P w w1"
  by (simp add: calls_only_def calls_between_def)

lemma calls_only_log [simp]: "calls_only P w (log lvl m a w1) = calls_only P w w1"
  by (rule calls_only_hist) (simp add: log_def)

lemma calls_only_record:
  assumes "calls_only P w w1" "P c"
  shows "calls_only P w (record_call c w1)"
proof -
  obtain cs where cs: "hist w1 = cs @ hist w" "list_all P cs"
    using calls_onlyD [OF assms(1)] by blast
  show ?thesis
    by (rule calls_onlyI [of _ "c # cs"]) (simp_all add: cs assms(2) record_call_def)
qed

lemma calls_only_sleep:
  assumes "calls_only P w w1" "P (Sleep n)"
  shows "calls_only P w (sleep n w1)"
proof -
  have "hist (sleep n w1) = hist (record_call (Sleep n) w1)"
    by (simp add: sleep_def record_call_def)
  then show ?thesis
    using calls_only_record [OF assms]
      calls_only_hist [of "sleep n w1" "record_call (Sleep n) w1" P w]
    by simp
qed

lemma ask_eq:
  "(ask E a c w = (r, w1)) =
     (r = (case raises E (hist w) c of Some e \<Rightarrow> Inl e | None \<Rightarrow> Inr (a (hist w) c))
      \<and> w1 = record_call c w)"
  by (auto simp add: ask_def)

lemma invoke_eq:
  "(invoke E c w = (r, w1)) =
     (r = (case raises E (hist w) c of Some e \<Rightarrow> Inl e | None \<Rightarrow> Inr ())
      \<and> w1 = record_call c w)"
  by (auto simp add: invoke_def ask_def)

lemma path_exists_eq:
  "(path_exists E p w = (r, w1)) =
     (r = file_exists E (hist w) p \<and> w1 = record_call (Path_exists p) w)"
  by (auto simp add: path_exists_def)

section \<open>Properties of the polling loop\<close>

lemma clock_poll_miss: "clock (poll_miss E p w) = clock w + 1"
  by (simp add: poll_miss_def sleep_def note_partial_def path_exists_def record_call_def
        log_def split: bool.splits)

lemma clock_poll_misses: "clock ((poll_miss E p ^^ k) w) = clock w + k"
  by (induction k) (simp_all add: clock_poll_miss)

lemma verify_poll_hit:
  assumes "int (clock w) - int start_time < timeout" "file_exists E (hist w) p"
  shows "verify_poll E p start_time timeout w =
           (True, log INFO ''Download verified: {}'' [Str p] (record_call (Path_exists p) w))"
  using assms by (subst verify_poll.simps) (simp add: path_exists_def)

lemma verify_poll_miss:
  assumes "int (clock w) - int start_time < timeout" "\<not> file_exists E (hist w) p"
  shows "verify_poll E p start_time timeout w =
           verify_poll E p start_time timeout (poll_miss E p w)"
  using assms by (subst verify_poll.simps) (simp add: path_exists_def poll_miss_def)

lemma verify_poll_over:
  assumes "\<not> int (clock w) - int start_time < timeout"
  shows "verify_poll E p start_time timeout w =
           (False, log WARNING ''Download not found: {}'' [Str p] w)"
  using assms by (subst verify_poll.simps) simp

lemma verify_poll_misses:
  "(\<forall>j<k. \<not> present_at_poll E p j w) \<Longrightarrow> int (clock w) - int start_time + int k \<le> timeout
   \<Longrightarrow> verify_poll E p start_time timeout w =
         verify_poll E p start_time timeout ((poll_miss E p ^^ k) w)"
proof (induction k arbitrary: w)
  case 0
  then show ?case by simp
next
  case (Suc k)
  have absent: "\<not> file_exists E (hist w) p"
    using Suc.prems(1) [rule_format, of 0] by (simp add: present_at_poll_def)
  have later: "\<forall>j<k. \<not> present_at_poll E p j (poll_miss E p w)"
  proof (intro allI impI)
    fix j assume "j < k"
    then have "\<not> present_at_poll E p (Suc j) w" using Suc.prems(1) by simp
    then show "\<not> present_at_poll E p j (poll_miss E p w)"
      by (simp add: present_at_poll_def funpow_swap1)
  qed
  have "verify_poll E p start_time timeout w =
          verify_poll E p start_time timeout (poll_miss E p w)"
    using Suc.prems(2) absent by (intro verify_poll_miss) simp_all
  also have "\<dots> = verify_poll E p start_time timeout ((poll_miss E p ^^ k) (poll_miss E p w))"
    using Suc.prems(2) later by (intro Suc.IH) (simp_all add: clock_poll_miss)
  finally show ?case by (simp add: funpow_swap1)
qed

lemma verify_poll_first_hit:
  assumes "int k < timeout" "\<forall>j<k. \<not> present_at_poll E p j w" "present_at_poll E p k w"
  shows "verify_poll E p (clock w) timeout w =
           (True, log INFO ''Download verified: {}'' [Str p]
                    (record_call (Path_exists p) ((poll_miss E p ^^ k) w)))"
proof -
  have "verify_poll E p (clock w) timeout w =
          verify_poll E p (clock w) timeout ((poll_miss E p ^^ k) w)"
    using assms(1,2) by (intro verify_poll_misses) simp_all
  also have "\<dots> = (True, log INFO ''Download verified: {}'' [Str p]
                    (record_call (Path_exists p) ((poll_miss E p ^^ k) w)))"
    using assms(1,3) by (intro verify_poll_hit) (simp_all add: clock_poll_misses present_at_poll_def)
  finally show ?thesis .
qed

lemma verify_poll_never:
  assumes "\<forall>j. int j < timeout \<longrightarrow> \<not> present_at_poll E p j w"
  shows "verify_poll E p (clock w) timeout w =
           (False, log WARNING ''Download not found: {}'' [Str p]
                     ((poll_miss E p ^^ nat timeout) w))"
proof -
  have "verify_poll E p (clock w) timeout w =
          verify_poll E p (clock w) timeout ((poll_miss E p ^^ nat timeout) w)"
  proof (cases "timeout \<le> 0")
    case True
    then show ?thesis by simp
  next
    case False
    then show ?thesis using assms by (intro verify_poll_misses) simp_all
  qed
  also have "\<dots> = (False, log WARNING ''Download not found: {}'' [Str p]
                     ((poll_miss E p ^^ nat timeout) w))"
    by (intro verify_poll_over) (simp add: clock_poll_misses)
  finally show ?thesis .
qed


text \<open>
  Claim C5. Let the sanitized name be a non-empty name and the expected path that
  name in the download folder. When the file is there at the \<open>k\<close>-th poll, with
  \<open>k\<close> below the timeout, and at no poll before, the verification succeeds and returns
  after \<open>k\<close> seconds of waiting, not after the timeout. When the file is there at no
  poll within the timeout, the verification fails and returns when the timeout has
  passed.
\<close>

theorem verify_download_returns_at_first_hit:
  assumes "sanitize_filename (Some filename) = Some name" and "name \<noteq> []"
  shows
    "(int k < timeout
        \<and> (\<forall>j<k. \<not> present_at_poll E (path_join E (download_folder w) name) j w)
        \<and> present_at_poll E (path_join E (download_folder w) name) k w
      \<longrightarrow> fst (verify_download E filename timeout w) = True
          \<and> clock (snd (verify_download E filename timeout w)) = clock w + k)
     \<and> ((\<forall>j. int j < timeout
              \<longrightarrow> \<not> present_at_poll E (path_join E (download_folder w) name) j w)
      \<longrightarrow> fst (verify_download E filename timeout w) = False
          \<and> clock (snd (verify_download E filename timeout w)) = clock w + nat timeout)"
proof -
  have v: "verify_download E filename timeout w =
             verify_poll E (path_join E (download_folder w) name) (clock w) timeout w"
    using assms by (simp add: verify_download_def)
  show ?thesis
  proof (intro conjI impI)
    assume h: "int k < timeout
        \<and> (\<forall>j<k. \<not> present_at_poll E (path_join E (download_folder w) name) j w)
        \<and> present_at_poll E (path_join E (download_folder w) name) k w"
    from h have r: "verify_poll E (path_join E (download_folder w) name) (clock w) timeout w =
        (True, log INFO ''Download verified: {}'' [Str (path_join E (download_folder w) name)]
                 (record_call (Path_exists (path_join E (download_folder w) name))
                    ((poll_miss E (path_join E (download_folder w) name) ^^ k) w)))"
      by (intro verify_poll_first_hit) simp_all
    show "fst (verify_download E filename timeout w) = True"
      by (simp add: v r)
    show "clock (snd (verify_download E filename timeout w)) = clock w + k"
      by (simp add: v r log_def record_call_def clock_poll_misses)
  next
    assume h: "\<forall>j. int j < timeout
              \<longrightarrow> \<not> present_at_poll E (path_join E (download_folder w) name) j w"
    from h have r: "verify_poll E (path_join E (download_folder w) name) (clock w) timeout w =
        (False, log WARNING ''Download not found: {}''
                  [Str (path_join E (download_folder w) name)]
                  ((poll_miss E (path_join E (download_folder w) name) ^^ nat timeout) w))"
      by (rule verify_poll_never)
    show "fst (verify_download E filename timeout w) = False"
      by (simp add: v r)
    show "clock (snd (verify_download E filename timeout w)) = clock w + nat timeout"
      by (simp add: v r log_def clock_poll_misses)
  qed
qed

lemma sanitize_report_jan:
  "sanitize_filename (Some ''report_jan.cwa'') = Some ''report_jan.cwa''"
  by code_simp

theorem verify_download_returns_at_first_hit_witness:
  "sanitize_filename (Some ''report_jan.cwa'') = Some ''report_jan.cwa''
   \<and> ''report_jan.cwa'' \<noteq> []
   \<and> int 2 < 30
   \<and> \<not> present_at_poll env_file_after_two ''downloads/report_jan.cwa'' 0 start
   \<and> \<not> present_at_poll env_file_after_two ''downloads/report_jan.cwa'' (Suc 0) start
   \<and> present_at_poll env_file_after_two ''downloads/report_jan.cwa'' 2 start
   \<and> fst (verify_download env_file_after_two ''report_jan.cwa'' 30 start) = True
   \<and> clock (snd (verify_download env_file_after_two ''report_jan.cwa'' 30 start)) = 2
   \<and> fst (verify_download base_env ''report_jan.cwa'' 30 start) = False
   \<and> clock (snd (verify_download base_env ''report_jan.cwa'' 30 start)) = 30"
proof -
  have n: "''report_jan.cwa'' \<noteq> []" by simp
  have p0: "\<not> present_at_poll env_file_after_two ''downloads/report_jan.cwa'' 0 start"
    by (simp add: present_at_poll_def env_file_after_two_def base_env_def start_def)
  have p1: "\<not> present_at_poll env_file_after_two ''downloads/report_jan.cwa'' (Suc 0) start"
    by (simp add: present_at_poll_def poll_miss_def env_file_after_two_def base_env_def
          start_def sleep_def note_partial_def path_exists_def record_call_def is_sleep_def)
  have p2: "present_at_poll env_file_after_two ''downloads/report_jan.cwa'' 2 start"
    by (simp add: present_at_poll_def poll_miss_def env_file_after_two_def base_env_def
          start_def sleep_def note_partial_def path_exists_def record_call_def is_sleep_def
          numeral_2_eq_2)
  have before: "\<forall>j<2. \<not> present_at_poll env_file_after_two ''downloads/report_jan.cwa'' j start"
    using p0 p1 by (simp add: numeral_2_eq_2 less_Suc_eq)
  have never: "\<forall>j. int j < 30
      \<longrightarrow> \<not> present_at_poll base_env ''downloads/report_jan.cwa'' j start"
    by (simp add: present_at_poll_def base_env_def)
  have j1: "path_join env_file_after_two (download_folder start) ''report_jan.cwa'' =
              ''downloads/report_jan.cwa''"
    by (simp add: env_file_after_two_def base_env_def start_def)
  have j2: "path_join base_env (download_folder start) ''report_jan.cwa'' =
              ''downloads/report_jan.cwa''"
    by (simp add: base_env_def start_def)
  have c: "clock start = 0" by (simp add: start_def)
  note t = verify_download_returns_at_first_hit [OF sanitize_report_jan n]
  have "int 2 < 30" by simp
  with t [of 2 30 env_file_after_two start, THEN conjunct1] before p2
  have a: "fst (verify_download env_file_after_two ''report_jan.cwa'' 30 start) = True
     \<and> clock (snd (verify_download env_file_after_two ''report_jan.cwa'' 30 start)) = 2"
    by (simp only: j1 c) simp
  from t [of 0 30 base_env start, THEN conjunct2] never
  have b: "fst (verify_download base_env ''report_jan.cwa'' 30 start) = False
     \<and> clock (snd (verify_download base_env ''report_jan.cwa'' 30 start)) = 30"
    by (simp only: j2 c) simp
  show ?thesis
    using sanitize_report_jan n p0 p1 p2 a b by simp
qed

section \<open>Runs on the example environments\<close>

lemmas string_defs = py_lower_def py_strip_def re_sub_forbidden_def forbidden_def
  py_isspace_def py_endswith_def

lemmas call_defs = invoke_def ask_def path_exists_def sleep_def log_def record_call_def
  is_Exception_def

lemmas attempt_defs = attempt_download_def download_attempt_def file_view_download_def
  file_view_failed_def close_menus_def before_retry_def click_or_script_def
  find_download_option_def verify_download_def note_partial_def max_attempts_def
  download_selectors_def

lemmas search_defs = search_and_download_def search_body_def process_search_results_def
  process_file_def derive_file_name_def debug_html_def clear_search_context_def
  clear_failed_def get_search_input_def search_selectors_def clear_selectors_def
  file_selectors_def name_selectors_def name_attributes_def

lemmas main_defs = main_def main_failed_def try_finally_def session_def keyword_step_def
  cleanup_def login_to_dropbox_def login_failed_def login_banner_def setup_driver_def
  setup_failed_def init_def call_method_def DropboxDownloader_methods_def
  DOWNLOAD_FOLDER_def DELAY_BETWEEN_SEARCHES_def csv_path_def

lemma sanitize_a_cwa: "sanitize_filename (Some ''a.cwa'') = Some ''a.cwa''"
  by code_simp

lemma name_a_cwa: "py_lower (py_strip ''a.cwa'') = ''a.cwa''"
  unfolding py_lower_def py_strip_def by code_simp

lemma ends_a_cwa: "py_endswith ''a.cwa'' ''.cwa''"
  by (simp add: py_endswith_def)





text \<open>
  Claim C3 at a failing input. The download is verified in the file view in both
  attempts (the file is in the folder at the first poll), going back in the browser
  raises, and \<open>attempt_download\<close> makes a second attempt and returns \<open>False\<close>.
\<close>

theorem attempt_download_loses_verified_download:
  "fst (attempt_download env_back_fails 7 ''a.cwa'' 0 start) = Inr False
   \<and> fst (verify_download env_back_fails ''a.cwa'' 30 start) = True
   \<and> length (filter (\<lambda>entry. entry = (INFO, ''Download verified: {}'', [Str ''downloads/a.cwa'']))
         (logs (snd (attempt_download env_back_fails 7 ''a.cwa'' 0 start)))) = 2
   \<and> length (filter (\<lambda>c. c = Context_click 7)
         (hist (snd (attempt_download env_back_fails 7 ''a.cwa'' 0 start)))) = 2"
  by (simp add: attempt_defs call_defs sanitize_a_cwa env_back_fails_def base_env_def start_def
        upt_conv_Cons verify_poll.simps del: sanitize_filename.simps)

text \<open>
  Claim C7 at a failing input. No download trigger is found anywhere: the file view
  is opened by the double click in both attempts, and the browser never goes back.
\<close>

theorem file_view_not_left_when_button_missing:
  "fst (attempt_download env_no_trigger 7 ''a.cwa'' 0 start) = Inr False
   \<and> length (filter (\<lambda>c. c = Double_click 7)
         (hist (snd (attempt_download env_no_trigger 7 ''a.cwa'' 0 start)))) = 2
   \<and> Back \<notin> set (hist (snd (attempt_download env_no_trigger 7 ''a.cwa'' 0 start)))"
  by (simp add: attempt_defs call_defs sanitize_a_cwa env_no_trigger_def base_env_def start_def
        is_find_element_def upt_conv_Cons verify_poll.simps del: sanitize_filename.simps)


text \<open>The object has no method \<open>cleanup\<close>, whatever the state.\<close>

lemma cleanup_is_not_a_method:
  "call_method ''cleanup'' body w = (Inl AttributeError, w)"
  by (simp add: call_method_def DropboxDownloader_methods_def)

text \<open>
  Claim C9 at a failing input. In a run where every call succeeds the browser is
  started, the keyword is processed, and the call \<open>first_downloader.cleanup()\<close> of the
  final block raises \<open>AttributeError\<close>: the driver is never quit.
\<close>

theorem main_never_quits_browser:
  "(case main env_all_well before_main of
      (outcome, w) \<Rightarrow>
        outcome = Inr () \<and> driver w \<and> Chrome \<in> set (hist w) \<and> Quit \<notin> set (hist w)
        \<and> (STDOUT, ''Error: {}'', [Exn AttributeError]) \<in> set (logs w))"
  by (simp add: main_defs search_defs attempt_defs call_defs sanitize_a_cwa name_a_cwa
        ends_a_cwa env_all_well_def base_env_def before_main_def upt_conv_Cons
        verify_poll.simps enumerate_eq_zip del: sanitize_filename.simps)

text \<open>The final block of the main block raises on every exit of the session, without
  a call of the driver.\<close>

lemma final_block_raises_on_every_exit:
  "try_finally (outcome, w) (call_method ''cleanup'' (cleanup E)) = (Inl AttributeError, w)"
  by (simp add: try_finally_def cleanup_is_not_a_method)

text \<open>In general: when the file view is open and its download button is not found,
  the second strategy ends without going back.\<close>

lemma file_view_stays_open_when_button_missing:
  assumes "raises E (hist w) (Double_click fe) = None"
      and "raises E (Sleep 2 # Double_click fe # hist w)
             (Find_element XPATH
                ''//button[contains(text(), 'Download') or @title='Download' or @aria-label='Download']'')
           = Some e"
  shows "hist (snd (file_view_download E fe file_name sname index attempt w)) =
           [Find_element XPATH
              ''//button[contains(text(), 'Download') or @title='Download' or @aria-label='Download']'',
            Sleep 2, Double_click fe] @ hist w"
  using assms
  by (simp add: file_view_download_def file_view_failed_def invoke_def ask_def sleep_def
        log_def record_call_def)

text \<open>In general: when the download is verified in the file view and going back
  raises, the second strategy does not return \<open>True\<close>.\<close>

lemma file_view_success_lost_when_back_raises:
  assumes "invoke E (Double_click fe) w = (Inr (), w1)"
      and "ask E (element E)
             (Find_element XPATH
                ''//button[contains(text(), 'Download') or @title='Download' or @aria-label='Download']'')
             (sleep 2 w1) = (Inr download_btn, w2)"
      and "click_or_script E download_btn w2 = (Inr (), w3)"
      and "verify_download E file_name 30
             (log INFO ''Downloaded .cwa file {} ({}) via file view on attempt {}''
                [Num (index + 1), Opt sname, Num attempt] w3) = (True, w4)"
      and "raises E (hist w4) Back = Some e"
  shows "fst (file_view_download E fe file_name sname index attempt w) = False"
  using assms
  by (simp add: file_view_download_def file_view_failed_def invoke_def [of E Back] ask_def)

section \<open>The calls of a download attempt\<close>

lemma attempt_call_simps [simp]:
  "attempt_call fe (Path_exists p)" "attempt_call fe (Sleep n)"
  "attempt_call fe (Find_element b s)" "attempt_call fe (Click x)"
  "attempt_call fe (Execute_script s x)" "attempt_call fe Back"
  "attempt_call fe (Context_click y) = (y = fe)" "attempt_call fe (Double_click y) = (y = fe)"
  by (simp_all add: attempt_call_def)

lemma poll_miss_calls:
  assumes "calls_only (attempt_call fe) w0 w"
  shows "calls_only (attempt_call fe) w0 (poll_miss E p w)"
  using assms
  by (auto simp add: poll_miss_def note_partial_def path_exists_def split: bool.splits
        intro!: calls_only_sleep calls_only_record)

lemma verify_poll_calls:
  "calls_only (attempt_call fe) w0 w \<Longrightarrow>
   calls_only (attempt_call fe) w0 (snd (verify_poll E p start_time timeout w))"
proof (induction "nat (timeout - (int (clock w) - int start_time))" arbitrary: w
        rule: less_induct)
  case less
  show ?case
  proof (cases "int (clock w) - int start_time < timeout")
    case False
    then show ?thesis using less.prems by (simp add: verify_poll_over)
  next
    case True
    show ?thesis
    proof (cases "file_exists E (hist w) p")
      case here: True
      show ?thesis using less.prems
        by (simp add: verify_poll_hit [OF True here] calls_only_record)
    next
      case absent: False
      have "calls_only (attempt_call fe) w0
              (snd (verify_poll E p start_time timeout (poll_miss E p w)))"
        using True by (intro less.hyps poll_miss_calls less.prems) (simp add: clock_poll_miss)
      then show ?thesis by (simp add: verify_poll_miss [OF True absent])
    qed
  qed
qed

lemma verify_download_calls:
  "calls_only (attempt_call fe) w0 w \<Longrightarrow>
   calls_only (attempt_call fe) w0 (snd (verify_download E filename timeout w))"
  by (simp add: verify_download_def verify_poll_calls split: option.splits
        del: sanitize_filename.simps)

lemma verify_download_callsE:
  "verify_download E filename timeout w = (b, w') \<Longrightarrow> calls_only (attempt_call fe) w0 w
   \<Longrightarrow> calls_only (attempt_call fe) w0 w'"
  using verify_download_calls [of fe w0 w E filename timeout] by simp

lemma click_or_script_callsE:
  "click_or_script E x w = (r, w') \<Longrightarrow> calls_only (attempt_call fe) w0 w
   \<Longrightarrow> calls_only (attempt_call fe) w0 w'"
  by (auto simp add: click_or_script_def invoke_eq split: prod.splits sum.splits
        intro!: calls_only_record)

lemma find_download_option_callsE:
  "find_download_option E sel w = (r, w') \<Longrightarrow> calls_only (attempt_call fe) w0 w
   \<Longrightarrow> calls_only (attempt_call fe) w0 w'"
  by (auto simp add: find_download_option_def ask_eq split: if_splits
        intro!: calls_only_record)

lemma context_menu_download_calls:
  "calls_only (attempt_call fe) w0 w \<Longrightarrow>
   calls_only (attempt_call fe) w0
     (snd (context_menu_download E file_name sname index attempt sels w))"
proof (induction sels arbitrary: w)
  case Nil
  then show ?case by simp
next
  case (Cons sel rest)
  obtain r1 w1 where f: "find_download_option E sel w = (r1, w1)"
    by (rule prod.exhaust)
  have c1: "calls_only (attempt_call fe) w0 w1"
    using f Cons.prems by (rule find_download_option_callsE)
  show ?case
  proof (cases r1)
    case (Inl e)
    then show ?thesis using f c1 by (simp add: Cons.IH)
  next
    case found: (Inr download_option)
    obtain r2 w2 where k: "click_or_script E download_option w1 = (r2, w2)"
      by (rule prod.exhaust)
    have c2: "calls_only (attempt_call fe) w0 w2"
      using k c1 by (rule click_or_script_callsE)
    show ?thesis
    proof (cases r2)
      case (Inl e)
      then show ?thesis using f found k c2 by (simp add: Cons.IH)
    next
      case clicked: (Inr u)
      obtain b w3 where v: "verify_download E file_name 30
          (log INFO ''Initiated download for .cwa file {} ({}) on attempt {}''
             [Num (index + 1), Opt sname, Num attempt] w2) = (b, w3)"
        by (rule prod.exhaust)
      have c3: "calls_only (attempt_call fe) w0 w3"
        using v by (rule verify_download_callsE) (simp add: c2)
      show ?thesis using f found k clicked v c3 by (cases b) (simp_all add: Cons.IH)
    qed
  qed
qed

lemma file_view_download_calls:
  assumes "calls_only (attempt_call fe) w0 w"
  shows "calls_only (attempt_call fe) w0
     (snd (file_view_download E fe file_name sname index attempt w))"
proof -
  obtain r1 w1 where d: "invoke E (Double_click fe) w = (r1, w1)"
    by (rule prod.exhaust)
  have c1: "calls_only (attempt_call fe) w0 w1"
    using d assms by (simp add: invoke_eq calls_only_record)
  show ?thesis
  proof (cases r1)
    case (Inl e)
    then show ?thesis using d c1 by (simp add: file_view_download_def file_view_failed_def)
  next
    case opened: (Inr u1)
    obtain r2 w2 where f: "ask E (element E)
        (Find_element XPATH
           ''//button[contains(text(), 'Download') or @title='Download' or @aria-label='Download']'')
        (sleep 2 w1) = (r2, w2)"
      by (rule prod.exhaust)
    have c2: "calls_only (attempt_call fe) w0 w2"
      using f c1 by (simp add: ask_eq calls_only_record calls_only_sleep)
    show ?thesis
    proof (cases r2)
      case (Inl e)
      then show ?thesis
        using d opened f c2 by (simp add: file_view_download_def file_view_failed_def)
    next
      case found: (Inr download_btn)
      obtain r3 w3 where k: "click_or_script E download_btn w2 = (r3, w3)"
        by (rule prod.exhaust)
      have c3: "calls_only (attempt_call fe) w0 w3"
        using k c2 by (rule click_or_script_callsE)
      show ?thesis
      proof (cases r3)
        case (Inl e)
        then show ?thesis
          using d opened f found k c3
          by (simp add: file_view_download_def file_view_failed_def)
      next
        case clicked: (Inr u3)
        obtain b w4 where v: "verify_download E file_name 30
            (log INFO ''Downloaded .cwa file {} ({}) via file view on attempt {}''
               [Num (index + 1), Opt sname, Num attempt] w3) = (b, w4)"
          by (rule prod.exhaust)
        have c4: "calls_only (attempt_call fe) w0 w4"
          using v by (rule verify_download_callsE) (simp add: c3)
        show ?thesis
          using d opened f found k clicked v c4
          by (cases b)
             (auto simp add: file_view_download_def file_view_failed_def invoke_eq
                calls_only_record calls_only_sleep split: prod.splits sum.splits)
      qed
    qed
  qed
qed

lemma close_menus_calls:
  assumes "calls_only (attempt_call fe) w0 w"
  shows "calls_only (attempt_call fe) w0 (close_menus E w)"
  using assms
  by (auto simp add: close_menus_def ask_eq invoke_eq calls_only_record calls_only_sleep
        split: prod.splits sum.splits)

lemma before_retry_calls:
  assumes "calls_only (attempt_call fe) w0 w"
  shows "calls_only (attempt_call fe) w0 (before_retry index sname attempt w)"
  using assms by (simp add: before_retry_def calls_only_sleep)

lemma download_attempt_calls:
  assumes "calls_only (attempt_call fe) w0 w"
  shows "calls_only (attempt_call fe) w0
     (snd (download_attempt E fe file_name sname index attempt w))"
proof -
  obtain r1 w1 where d: "invoke E (Context_click fe) w = (r1, w1)"
    by (rule prod.exhaust)
  have c1: "calls_only (attempt_call fe) w0 w1"
    using d assms by (simp add: invoke_eq calls_only_record)
  show ?thesis
  proof (cases r1)
    case (Inl e)
    then show ?thesis using d c1 by (simp add: download_attempt_def)
  next
    case opened: (Inr u1)
    obtain b w2 where m: "context_menu_download E file_name sname index attempt
        download_selectors (sleep 1 w1) = (b, w2)"
      by (rule prod.exhaust)
    have c2: "calls_only (attempt_call fe) w0 w2"
      using context_menu_download_calls [of fe w0 "sleep 1 w1" E file_name sname index attempt
          download_selectors] m c1
      by (simp add: calls_only_sleep)
    obtain b3 w3 where v: "file_view_download E fe file_name sname index attempt w2 = (b3, w3)"
      by (rule prod.exhaust)
    have c3: "calls_only (attempt_call fe) w0 w3"
      using file_view_download_calls [OF c2, of E file_name sname index attempt] v by simp
    show ?thesis using d opened m v c2 c3 by (cases b) (simp_all add: download_attempt_def)
  qed
qed

lemma attempt_loop_calls:
  "calls_only (attempt_call fe) w0 w \<Longrightarrow>
   calls_only (attempt_call fe) w0
     (snd (attempt_loop E fe file_name sname index attempts w))"
proof (induction attempts arbitrary: w)
  case Nil
  then show ?case by simp
next
  case (Cons attempt rest)
  obtain r1 w1 where d: "download_attempt E fe file_name sname index attempt w = (r1, w1)"
    by (rule prod.exhaust)
  have c1: "calls_only (attempt_call fe) w0 w1"
    using download_attempt_calls [OF Cons.prems, of E file_name sname index attempt] d by simp
  show ?case
  proof (cases r1)
    case (Inl e)
    then show ?thesis using d c1 by simp
  next
    case (Inr b)
    then show ?thesis
      using d c1
      by (cases b) (simp_all add: Cons.IH before_retry_calls close_menus_calls)
  qed
qed

lemma attempt_download_calls:
  "calls_only (attempt_call fe) w0 w \<Longrightarrow>
   calls_only (attempt_call fe) w0 (snd (attempt_download E fe file_name index w))"
  by (simp add: attempt_download_def attempt_loop_calls del: sanitize_filename.simps)

section \<open>Reading the name of a row\<close>

lemma name_probe_simps [simp]:
  "name_probe fe (Text x)" "name_probe fe (Find_child y b s) = (y = fe)"
  "name_probe fe (Get_attribute y a) = (y = fe)"
  by (simp_all add: name_probe_def)

lemma name_probe_not_attempt: "name_probe fe c \<Longrightarrow> \<not> attempt_call x c"
  by (cases c) (simp_all add: name_probe_def attempt_call_def)

lemma find_file_name_calls:
  "calls_only (name_probe fe) w0 w \<Longrightarrow>
   calls_only (name_probe fe) w0 (snd (find_file_name E fe sels w))"
proof (induction sels arbitrary: w)
  case Nil
  then show ?case by simp
next
  case (Cons sel rest)
  then show ?case
    by (auto simp add: ask_eq calls_only_record split: prod.splits sum.splits)
qed

lemma name_from_attributes_calls:
  "calls_only (name_probe fe) w0 w \<Longrightarrow>
   calls_only (name_probe fe) w0 (snd (name_from_attributes E fe attrs file_name w))"
proof (induction attrs arbitrary: w file_name)
  case Nil
  then show ?case by simp
next
  case (Cons attr rest)
  then show ?case
    by (auto simp add: ask_eq calls_only_record split: prod.splits sum.splits option.splits)
qed

lemma derive_file_name_calls:
  assumes "calls_only (name_probe fe) w0 w"
  shows "calls_only (name_probe fe) w0 (snd (derive_file_name E fe w))"
proof -
  obtain fn w1 where f: "find_file_name E fe name_selectors w = (fn, w1)"
    by (rule prod.exhaust)
  have "calls_only (name_probe fe) w0 w1"
    using find_file_name_calls [OF assms, of E name_selectors] f by simp
  then show ?thesis
    using f by (simp add: derive_file_name_def name_from_attributes_calls)
qed

lemma debug_html_calls:
  "calls_only (name_probe fe) w0 w \<Longrightarrow> calls_only (name_probe fe) w0 (debug_html E fe w)"
  by (simp add: debug_html_def ask_def calls_only_record)

text \<open>A derived name is in lower case.\<close>

lemma lower_nil: "py_lower [] = []"
  by (simp add: py_lower_def)

lemma find_file_name_lower:
  "fst (find_file_name E fe sels w) = Some n \<Longrightarrow> py_lower n = n"
proof (induction sels arbitrary: w)
  case Nil
  then show ?case by simp
next
  case (Cons sel rest)
  then show ?case
    by (auto simp add: lower_idem split: prod.splits sum.splits)
qed

lemma name_from_attributes_lower:
  "fst (name_from_attributes E fe attrs file_name w) = Some n \<Longrightarrow>
   (\<And>m. file_name = Some m \<Longrightarrow> py_lower m = m) \<Longrightarrow> py_lower n = n"
proof (induction attrs arbitrary: w file_name)
  case Nil
  then show ?case by simp
next
  case (Cons attr rest)
  obtain r w1 where a: "ask E (attribute_value E) (Get_attribute fe attr) w = (r, w1)"
    by (rule prod.exhaust)
  show ?case
  proof (cases r)
    case (Inl e)
    then show ?thesis using a Cons.prems by simp
  next
    case (Inr v)
    show ?thesis
    proof (cases v)
      case None
      then show ?thesis using a Inr Cons.prems(1) Cons.IH [of None w1] by simp
    next
      case (Some t)
      show ?thesis
      proof (cases "t = []")
        case True
        then show ?thesis
          using a Inr Some Cons.prems(1) Cons.IH [of "Some []" w1] by (simp add: lower_nil)
      next
        case False
        then show ?thesis using a Inr Some Cons.prems(1) by (auto simp add: lower_idem)
      qed
    qed
  qed
qed

lemma derive_file_name_lower:
  assumes "derive_file_name E fe w = (Some n, w1)"
  shows "py_lower n = n"
proof -
  obtain fn w2 where f: "find_file_name E fe name_selectors w = (fn, w2)"
    by (rule prod.exhaust)
  have l: "\<And>m. fn = Some m \<Longrightarrow> py_lower m = m"
    using find_file_name_lower [of E fe name_selectors w] f by simp
  show ?thesis
  proof (cases "truthy fn")
    case True
    then show ?thesis using assms f l by (simp add: derive_file_name_def)
  next
    case False
    then have "fst (name_from_attributes E fe name_attributes fn w2) = Some n"
      using assms f by (simp add: derive_file_name_def)
    then show ?thesis using l by (rule name_from_attributes_lower)
  qed
qed

lemma lower_cwa: "py_lower ''.cwa'' = ''.cwa''"
  unfolding py_lower_def by code_simp

text \<open>
  Claim C2. When the name derived for a row does not end in \<open>.cwa\<close>, case ignored
  (this includes a row for which no name was found), the row leaves the download
  counter as it was, and the only calls made for it are those that read its name:
  no call of a download attempt is among them.
\<close>

theorem candidate_without_cwa_name_is_skipped:
  assumes "derive_file_name E fe w = (file_name, w1)"
      and "\<not> endswith_ignoring_case (case_option [] id file_name) ''.cwa''"
  shows "fst (process_file E i fe downloaded_count w) = Inr downloaded_count
     \<and> calls_only (name_probe fe) w (snd (process_file E i fe downloaded_count w))
     \<and> list_all (\<lambda>c. \<not> attempt_call fe c)
         (calls_between w (snd (process_file E i fe downloaded_count w)))"
proof -
  have c1: "calls_only (name_probe fe) w w1"
    using derive_file_name_calls [OF calls_only_refl, of fe w E] assms(1) by simp
  have skip: "truthy file_name \<Longrightarrow> \<not> py_endswith (case_option [] id file_name) ''.cwa''"
  proof -
    assume "truthy file_name"
    then obtain n where n: "file_name = Some n" by (cases file_name) simp_all
    then have "py_lower n = n" using assms(1) derive_file_name_lower by simp
    then show ?thesis using assms(2) n by (simp add: endswith_ignoring_case_def lower_cwa)
  qed
  have r: "fst (process_file E i fe downloaded_count w) = Inr downloaded_count"
    using assms(1) skip by (simp add: process_file_def)
  have c: "calls_only (name_probe fe) w (snd (process_file E i fe downloaded_count w))"
    using assms(1) skip c1 by (simp add: process_file_def debug_html_calls)
  then have "list_all (name_probe fe) (calls_between w (snd (process_file E i fe downloaded_count w)))"
    by (simp add: calls_only_def)
  then have "list_all (\<lambda>c. \<not> attempt_call fe c)
         (calls_between w (snd (process_file E i fe downloaded_count w)))"
    using name_probe_not_attempt by (auto simp add: list_all_iff)
  with r c show ?thesis by simp
qed


lemma name_notes_txt: "py_lower (py_strip '' Notes.TXT '') = ''notes.txt''"
  unfolding py_lower_def py_strip_def by code_simp

lemma notes_txt_not_cwa: "\<not> endswith_ignoring_case ''notes.txt'' ''.cwa''"
  unfolding endswith_ignoring_case_def py_endswith_def py_lower_def by code_simp

lemma derive_notes_txt:
  "fst (derive_file_name env_third_selector 11 start) = Some ''notes.txt''"
  by (simp add: derive_file_name_def name_selectors_def ask_def env_third_selector_def
        base_env_def name_notes_txt)

theorem candidate_without_cwa_name_is_skipped_witness:
  "fst (derive_file_name env_third_selector 11 start) = Some ''notes.txt''
   \<and> \<not> endswith_ignoring_case ''notes.txt'' ''.cwa''
   \<and> fst (process_file env_third_selector 0 11 0 start) = Inr 0
   \<and> calls_only (name_probe 11) start (snd (process_file env_third_selector 0 11 0 start))
   \<and> list_all (\<lambda>c. \<not> attempt_call 11 c)
        (calls_between start (snd (process_file env_third_selector 0 11 0 start)))"
proof -
  have d: "derive_file_name env_third_selector 11 start =
             (Some ''notes.txt'', snd (derive_file_name env_third_selector 11 start))"
    using derive_notes_txt by (simp add: prod_eq_iff)
  have h: "\<not> endswith_ignoring_case (case_option [] id (Some ''notes.txt'')) ''.cwa''"
    using notes_txt_not_cwa by simp
  show ?thesis
    using candidate_without_cwa_name_is_skipped [OF d h, of 0 0] derive_notes_txt
      notes_txt_not_cwa
    by simp
qed

section \<open>The rows that are processed\<close>

lemma calls_only_lift:
  assumes "calls_only P w w'" "calls_only Q w0 w" "\<And>c. P c \<Longrightarrow> Q c"
  shows "calls_only Q w0 w'"
proof -
  have "calls_only Q w w'" using assms(1,3) by (rule calls_only_mono)
  with assms(2) show ?thesis by (rule calls_only_trans)
qed

lemma row_call_not_touching: "row_call fe c \<Longrightarrow> touches x c \<Longrightarrow> x = fe"
  by (cases c) (simp_all add: row_call_def name_probe_def attempt_call_def touches_def)

lemma process_file_calls:
  assumes "calls_only (row_call fe) w0 w"
  shows "calls_only (row_call fe) w0 (snd (process_file E i fe downloaded_count w))"
proof -
  obtain fn w1 where d: "derive_file_name E fe w = (fn, w1)"
    by (rule prod.exhaust)
  have "calls_only (name_probe fe) w w1"
    using derive_file_name_calls [OF calls_only_refl, of fe w E] d by simp
  then have c1: "calls_only (row_call fe) w0 w1"
    using assms by (rule calls_only_lift [where Q = "row_call fe"]) (simp add: row_call_def)
  have html: "calls_only (row_call fe) w0 (debug_html E fe m)"
    if "calls_only (row_call fe) w0 m" for m
    using that by (simp add: debug_html_def ask_def calls_only_record row_call_def)
  obtain r w2 where a: "attempt_download E fe (case_option [] id fn) i w1 = (r, w2)"
    by (rule prod.exhaust)
  have "calls_only (attempt_call fe) w1 w2"
    using attempt_download_calls [OF calls_only_refl, of fe w1 E "case_option [] id fn" i] a
    by simp
  then have c2: "calls_only (row_call fe) w0 w2"
    using c1 by (rule calls_only_lift [where Q = "row_call fe"]) (simp add: row_call_def)
  show ?thesis
    using d a c1 c2
    by (cases r) (auto simp add: process_file_def html split: bool.splits)
qed

lemma process_files_calls:
  "calls_only (\<lambda>c. \<exists>fe \<in> S. row_call fe c) w0 w \<Longrightarrow> snd ` set rows \<subseteq> S \<Longrightarrow>
   calls_only (\<lambda>c. \<exists>fe \<in> S. row_call fe c) w0 (snd (process_files E rows n w))"
proof (induction rows arbitrary: w n)
  case Nil
  then show ?case by simp
next
  case (Cons row rest)
  obtain r w1 where p: "process_file E (fst row) (snd row) n w = (r, w1)"
    by (rule prod.exhaust)
  have "calls_only (row_call (snd row)) w w1"
    using process_file_calls [OF calls_only_refl, of "snd row" w E "fst row" n] p by simp
  then have c1: "calls_only (\<lambda>c. \<exists>fe \<in> S. row_call fe c) w0 w1"
    using Cons.prems(1)
    by (rule calls_only_lift [where Q = "\<lambda>c. \<exists>fe \<in> S. row_call fe c"])
       (use Cons.prems(2) in auto)
  show ?case
    using p c1 Cons.prems(2) by (cases r) (simp_all add: Cons.IH)
qed

lemma process_files_count:
  "fst (process_files E rows n w) = Inr m \<Longrightarrow> m \<le> n + length rows"
proof (induction rows arbitrary: w n)
  case Nil
  then show ?case by simp
next
  case (Cons row rest)
  obtain r w1 where p: "process_file E (fst row) (snd row) n w = (r, w1)"
    by (rule prod.exhaust)
  show ?case
  proof (cases r)
    case (Inl e)
    then show ?thesis using p Cons.prems by simp
  next
    case (Inr c)
    have "c \<le> n + 1"
      using p Inr
      by (auto simp add: process_file_def split: prod.splits if_splits sum.splits bool.splits)
    moreover have "m \<le> c + length rest"
      using Cons.prems p Inr by (intro Cons.IH [of c w1]) simp
    ultimately show ?thesis by simp
  qed
qed

text \<open>
  Claim C10. Whatever rows a search finds, only the first five are processed: on a
  row that is not among the first five no call is made (it is not looked into, its
  attributes are not read, it is neither right-clicked nor opened), and the number
  of downloads reported for the keyword is at most five.
\<close>

theorem rows_after_the_fifth_are_never_processed:
  assumes "x \<notin> set (take 5 files_found)"
  shows "calls_only (\<lambda>c. \<not> touches x c) w (snd (process_search_results E files_found w))"
proof (cases "files_found = []")
  case True
  then show ?thesis by (simp add: process_search_results_def calls_only_refl)
next
  case False
  define w1 where "w1 = log INFO ''Found {} potential results for: {}''
      [Num (length files_found), Str (keyword w)] w"
  obtain r w2 where p: "process_files E (enumerate 0 (take 5 files_found)) 0 w1 = (r, w2)"
    by (rule prod.exhaust)
  have s: "snd ` set (enumerate 0 (take 5 files_found)) \<subseteq> set (take 5 files_found)"
    by (auto simp add: enumerate_eq_zip dest: set_zip_rightD)
  have "calls_only (\<lambda>c. \<exists>fe \<in> set (take 5 files_found). row_call fe c) w w1"
    by (simp add: w1_def calls_only_refl)
  then have "calls_only (\<lambda>c. \<exists>fe \<in> set (take 5 files_found). row_call fe c) w
      (snd (process_files E (enumerate 0 (take 5 files_found)) 0 w1))"
    using s by (rule process_files_calls)
  then have "calls_only (\<lambda>c. \<not> touches x c) w w2"
    using p assms by (auto elim!: calls_only_mono dest: row_call_not_touching)
  then show ?thesis
    using False p by (cases r) (simp_all add: process_search_results_def w1_def)
qed

lemma first_five_of_six_rows_processed:
  "(case process_search_results env_six_rows [11, 12, 13, 14, 15, 16] start of
      (outcome, w) \<Rightarrow>
        outcome = Inr True \<and> Context_click 11 \<in> set (hist w) \<and> Context_click 15 \<in> set (hist w)
        \<and> hd (logs w) =
            (INFO, ''Completed search for '{}': {} .cwa downloads initiated'',
             [Str ''a.cwa'', Num 5]))"
  by (simp add: search_defs attempt_defs call_defs sanitize_a_cwa name_a_cwa ends_a_cwa
        env_six_rows_def base_env_def start_def upt_conv_Cons verify_poll.simps
        enumerate_eq_zip del: sanitize_filename.simps)

theorem rows_after_the_fifth_are_never_processed_witness:
  "16 \<notin> set (take 5 [11, 12, 13, 14, 15, 16 :: nat])
   \<and> calls_only (\<lambda>c. \<not> touches 16 c) start
        (snd (process_search_results env_six_rows [11, 12, 13, 14, 15, 16] start))"
proof -
  have h: "16 \<notin> set (take 5 [11, 12, 13, 14, 15, 16 :: nat])" by simp
  show ?thesis
    using rows_after_the_fifth_are_never_processed [OF h, of start env_six_rows] h
    by simp
qed

section \<open>Faults of the driver do not leave the processing of a row\<close>

lemma no_interrupt_raises: "no_interrupt E \<Longrightarrow> raises E h c = Some e \<Longrightarrow> is_Exception e"
  by (auto simp add: no_interrupt_def is_Exception_def)

lemma no_interrupt_invoke:
  "no_interrupt E \<Longrightarrow> invoke E c w = (Inl e, w1) \<Longrightarrow> is_Exception e"
  by (auto simp add: invoke_eq split: option.splits dest: no_interrupt_raises)

lemma download_attempt_total:
  assumes "no_interrupt E"
  shows "\<not> isl (fst (download_attempt E fe file_name sname index attempt w))"
proof -
  obtain r1 w1 where d: "invoke E (Context_click fe) w = (r1, w1)"
    by (rule prod.exhaust)
  show ?thesis
  proof (cases r1)
    case (Inl e)
    then have "is_Exception e" using assms d no_interrupt_invoke by simp
    then show ?thesis using d Inl by (simp add: download_attempt_def)
  next
    case (Inr u)
    then show ?thesis
      using d by (simp add: download_attempt_def split: prod.splits bool.splits)
  qed
qed

lemma attempt_loop_total:
  assumes "no_interrupt E"
  shows "\<not> isl (fst (attempt_loop E fe file_name sname index attempts w))"
proof (induction attempts arbitrary: w)
  case Nil
  show ?case by simp
next
  case (Cons attempt rest)
  obtain r1 w1 where d: "download_attempt E fe file_name sname index attempt w = (r1, w1)"
    by (rule prod.exhaust)
  have "\<not> isl r1"
    using download_attempt_total [OF assms, of fe file_name sname index attempt w] d by simp
  then obtain b where "r1 = Inr b" by (cases r1) simp_all
  then show ?case using d by (cases b) (simp_all add: Cons.IH)
qed

lemma attempt_loop_failure_logged:
  "fst (attempt_loop E fe file_name sname index attempts w) = Inr False \<Longrightarrow>
   hd (logs (snd (attempt_loop E fe file_name sname index attempts w))) =
     (WARNING, ''Could not download .cwa file {} ({}) after {} attempts'',
      [Num (index + 1), Opt sname, Num max_attempts])"
proof (induction attempts arbitrary: w)
  case Nil
  show ?case by (simp add: log_def)
next
  case (Cons attempt rest)
  obtain r1 w1 where d: "download_attempt E fe file_name sname index attempt w = (r1, w1)"
    by (rule prod.exhaust)
  show ?case
  proof (cases r1)
    case (Inl e)
    then show ?thesis using d Cons.prems by simp
  next
    case (Inr b)
    then show ?thesis using d Cons.prems by (cases b) (simp_all add: Cons.IH)
  qed
qed

lemma process_file_total:
  assumes "no_interrupt E"
  shows "\<not> isl (fst (process_file E i fe n w))"
proof -
  obtain fn w1 where d: "derive_file_name E fe w = (fn, w1)"
    by (rule prod.exhaust)
  obtain r w2 where a: "attempt_download E fe (case_option [] id fn) i w1 = (r, w2)"
    by (rule prod.exhaust)
  have "\<not> isl (fst (attempt_download E fe (case_option [] id fn) i w1))"
    unfolding attempt_download_def using assms by (rule attempt_loop_total)
  then have "\<not> isl r" using a by simp
  then obtain b where "r = Inr b" by (cases r) simp_all
  then show ?thesis using d a by (cases b) (simp_all add: process_file_def)
qed

lemma process_files_total:
  assumes "no_interrupt E"
  shows "\<not> isl (fst (process_files E rows n w))"
proof (induction rows arbitrary: w n)
  case Nil
  show ?case by simp
next
  case (Cons row rest)
  obtain r w1 where p: "process_file E (fst row) (snd row) n w = (r, w1)"
    by (rule prod.exhaust)
  have "\<not> isl r" using process_file_total [OF assms, of "fst row" "snd row" n w] p by simp
  then obtain c where "r = Inr c" by (cases r) simp_all
  then show ?case using p by (simp add: Cons.IH)
qed

lemma clear_search_context_total:
  assumes "no_interrupt E"
  shows "\<not> isl (fst (clear_search_context E w))"
  using assms
  by (auto simp add: clear_search_context_def clear_failed_def
        split: prod.splits bool.splits option.splits sum.splits dest: no_interrupt_invoke)

lemma process_search_results_total:
  assumes "no_interrupt E"
  shows "\<not> isl (fst (process_search_results E files_found w))"
proof -
  obtain r w1 where p: "process_files E (enumerate 0 (take 5 files_found)) 0
      (log INFO ''Found {} potential results for: {}''
         [Num (length files_found), Str (keyword w)] w) = (r, w1)"
    by (rule prod.exhaust)
  have "\<not> isl r" using process_files_total [OF assms] p
    by (metis fst_conv)
  then obtain c where "r = Inr c" by (cases r) simp_all
  then show ?thesis using p by (simp add: process_search_results_def)
qed

lemma search_body_exception:
  assumes "no_interrupt E" "fst (search_body E w) = Inl e"
  shows "is_Exception e"
proof -
  obtain r0 w0 where c: "clear_search_context E w = (r0, w0)"
    by (rule prod.exhaust)
  have "\<not> isl r0" using clear_search_context_total [OF assms(1), of w] c by simp
  then obtain cleared where r0: "r0 = Inr cleared" by (cases r0) simp_all
  obtain si w2 where g: "get_search_input E w0 = (si, w2)"
    by (rule prod.exhaust)
  show ?thesis
  proof (cases si)
    case None
    then show ?thesis using assms(2) c r0 g by (simp add: search_body_def)
  next
    case (Some search_input)
    obtain r3 w3 where k1: "invoke E (Send_keys search_input (keyword w2)) w2 = (r3, w3)"
      by (rule prod.exhaust)
    show ?thesis
    proof (cases r3)
      case (Inl e3)
      then show ?thesis
        using assms c r0 g Some k1 no_interrupt_invoke [OF assms(1) k1 [unfolded Inl]]
        by (simp add: search_body_def)
    next
      case (Inr u3)
      obtain r4 w4 where k2: "invoke E (Send_key search_input RETURN) w3 = (r4, w4)"
        by (rule prod.exhaust)
      show ?thesis
      proof (cases r4)
        case (Inl e4)
        then show ?thesis
          using assms c r0 g Some k1 Inr k2 no_interrupt_invoke [OF assms(1) k2 [unfolded Inl]]
          by (simp add: search_body_def)
      next
        case sent: (Inr u4)
        obtain files_found w5 where f: "find_file_rows E file_selectors
            (sleep 5 (log INFO ''Searching for: {}'' [Str (keyword w4)] w4)) = (files_found, w5)"
          by (rule prod.exhaust)
        have "\<not> isl (fst (process_search_results E files_found w5))"
          using assms(1) by (rule process_search_results_total)
        then show ?thesis
          using assms(2) c r0 g Some k1 Inr k2 sent f by (simp add: search_body_def)
      qed
    qed
  qed
qed

lemma search_and_download_total:
  assumes "no_interrupt E"
  shows "\<not> isl (fst (search_and_download E w))"
proof -
  obtain r w1 where b: "search_body E w = (r, w1)"
    by (rule prod.exhaust)
  show ?thesis
  proof (cases r)
    case (Inl e)
    then have "is_Exception e" using search_body_exception [OF assms, of w e] b by simp
    then show ?thesis using b Inl by (simp add: search_and_download_def)
  next
    case (Inr ok)
    then show ?thesis using b by (simp add: search_and_download_def)
  qed
qed

lemma keyword_step_total:
  assumes "no_interrupt E"
  shows "\<not> isl (fst (keyword_step E kw w))"
proof -
  obtain r w1 where s: "search_and_download E (w\<lparr>keyword := kw\<rparr>) = (r, w1)"
    by (rule prod.exhaust)
  have "\<not> isl r" using search_and_download_total [OF assms, of "w\<lparr>keyword := kw\<rparr>"] s by simp
  then obtain b where "r = Inr b" by (cases r) simp_all
  then show ?thesis
    using s
    by (cases b) (simp_all add: keyword_step_def call_method_def DropboxDownloader_methods_def)
qed

lemma keyword_loop_total:
  assumes "no_interrupt E"
  shows "\<not> isl (fst (keyword_loop E kws w))"
proof (induction kws arbitrary: w)
  case Nil
  show ?case by simp
next
  case (Cons kw rest)
  obtain r w1 where s: "keyword_step E kw w = (r, w1)"
    by (rule prod.exhaust)
  have "\<not> isl r" using keyword_step_total [OF assms, of kw w] s by simp
  then obtain u where "r = Inr u" by (cases r) simp_all
  then show ?case using s by (simp add: Cons.IH)
qed


text \<open>Every row of the list is looked into, whatever happened at the rows before it.\<close>

lemma calls_only_member:
  assumes "calls_only P w w'" "c \<in> set (hist w)"
  shows "c \<in> set (hist w')"
proof -
  obtain cs where "hist w' = cs @ hist w" using calls_onlyD [OF assms(1)] by blast
  then show ?thesis using assms(2) by simp
qed

lemma find_file_name_first_call:
  "calls_only (name_probe fe) (record_call (Find_child fe CSS_SELECTOR sel) w)
     (snd (find_file_name E fe (sel # rest) w))"
  by (auto simp add: ask_eq calls_only_record calls_only_refl find_file_name_calls
        split: prod.splits sum.splits)

lemma process_file_calls_after_name:
  assumes d: "derive_file_name E fe w = (fn, w1)" and c1: "calls_only (row_call fe) w0 w1"
  shows "calls_only (row_call fe) w0 (snd (process_file E i fe downloaded_count w))"
proof -
  have html: "calls_only (row_call fe) w0 (debug_html E fe m)"
    if "calls_only (row_call fe) w0 m" for m
    using that by (simp add: debug_html_def ask_def calls_only_record row_call_def)
  obtain r w2 where a: "attempt_download E fe (case_option [] id fn) i w1 = (r, w2)"
    by (rule prod.exhaust)
  have "calls_only (attempt_call fe) w1 w2"
    using attempt_download_calls [OF calls_only_refl, of fe w1 E "case_option [] id fn" i] a
    by simp
  then have c2: "calls_only (row_call fe) w0 w2"
    using c1 by (rule calls_only_lift [where Q = "row_call fe"]) (simp add: row_call_def)
  show ?thesis
    using d a c1 c2
    by (cases r) (auto simp add: process_file_def html split: bool.splits)
qed

lemma process_file_first_call:
  "Find_child fe CSS_SELECTOR ''.brws-file-name-cell-filename''
     \<in> set (hist (snd (process_file E i fe n w)))"
proof -
  define w0 where "w0 = record_call (Find_child fe CSS_SELECTOR ''.brws-file-name-cell-filename'') w"
  obtain fn1 w1 where f: "find_file_name E fe name_selectors w = (fn1, w1)"
    by (rule prod.exhaust)
  have c1: "calls_only (name_probe fe) w0 w1"
    using find_file_name_first_call [of fe "''.brws-file-name-cell-filename''" w E
        "tl name_selectors"] f
    by (simp add: name_selectors_def w0_def)
  obtain fn w2 where d: "derive_file_name E fe w = (fn, w2)"
    by (rule prod.exhaust)
  have "calls_only (name_probe fe) w0 w2"
    using d f c1 name_from_attributes_calls [OF c1, of E name_attributes fn1]
    by (auto simp add: derive_file_name_def split: if_splits)
  then have "calls_only (row_call fe) w0 w2"
    by (rule calls_only_mono) (simp add: row_call_def)
  with d have "calls_only (row_call fe) w0 (snd (process_file E i fe n w))"
    by (rule process_file_calls_after_name)
  then show ?thesis
    by (rule calls_only_member) (simp add: w0_def record_call_def)
qed

lemma process_files_visits_all:
  assumes "no_interrupt E"
  shows "row \<in> set rows \<Longrightarrow>
     Find_child (snd row) CSS_SELECTOR ''.brws-file-name-cell-filename''
       \<in> set (hist (snd (process_files E rows n w)))"
proof (induction rows arbitrary: w n)
  case Nil
  then show ?case by simp
next
  case (Cons r rest)
  obtain res w1 where p: "process_file E (fst r) (snd r) n w = (res, w1)"
    by (rule prod.exhaust)
  have "\<not> isl res" using process_file_total [OF assms, of "fst r" "snd r" n w] p by simp
  then obtain c where res: "res = Inr c" by (cases res) simp_all
  have step: "process_files E (r # rest) n w = process_files E rest c w1"
    using p res by simp
  show ?case
  proof (cases "row = r")
    case True
    have "Find_child (snd r) CSS_SELECTOR ''.brws-file-name-cell-filename'' \<in> set (hist w1)"
      using process_file_first_call [of "snd r" E "fst r" n w] p by simp
    moreover have "calls_only (\<lambda>c. \<exists>fe \<in> UNIV. row_call fe c) w1
        (snd (process_files E rest c w1))"
      by (rule process_files_calls) (simp_all add: calls_only_refl)
    ultimately show ?thesis
      using True step calls_only_member by simp
  next
    case False
    then have "row \<in> set rest" using Cons.prems by simp
    then show ?thesis using step Cons.IH by simp
  qed
qed

section \<open>When no file arrives, every attempt is a failure\<close>

lemma verify_download_never:
  assumes "\<forall>h p. \<not> file_exists E h p"
  shows "fst (verify_download E filename timeout w) = False"
proof -
  have "fst (verify_poll E p (clock w) timeout w) = False" for p
    using assms by (simp add: verify_poll_never present_at_poll_def)
  then show ?thesis
    by (simp add: verify_download_def split: option.splits del: sanitize_filename.simps)
qed

lemma context_menu_download_never:
  assumes "\<forall>h p. \<not> file_exists E h p"
  shows "fst (context_menu_download E file_name sname index attempt sels w) = False"
proof (induction sels arbitrary: w)
  case Nil
  show ?case by simp
next
  case (Cons sel rest)
  have v: "verify_download E file_name 30 m = (b, m') \<Longrightarrow> \<not> b" for m b m'
    using verify_download_never [OF assms, of file_name 30 m] by simp
  show ?case
    by (auto simp add: Cons.IH split: prod.splits sum.splits bool.splits dest: v)
qed

lemma file_view_download_never:
  assumes "\<forall>h p. \<not> file_exists E h p"
  shows "fst (file_view_download E fe file_name sname index attempt w) = False"
proof -
  have v: "verify_download E file_name 30 m = (b, m') \<Longrightarrow> \<not> b" for m b m'
    using verify_download_never [OF assms, of file_name 30 m] by simp
  show ?thesis
    by (auto simp add: file_view_download_def file_view_failed_def
          split: prod.splits sum.splits bool.splits dest: v)
qed

lemma download_attempt_never:
  assumes "no_interrupt E" "\<forall>h p. \<not> file_exists E h p"
  shows "fst (download_attempt E fe file_name sname index attempt w) = Inr False"
proof -
  obtain r1 w1 where d: "invoke E (Context_click fe) w = (r1, w1)"
    by (rule prod.exhaust)
  show ?thesis
  proof (cases r1)
    case (Inl e)
    then have "is_Exception e" using assms(1) d no_interrupt_invoke by simp
    then show ?thesis using d Inl by (simp add: download_attempt_def)
  next
    case (Inr u)
    obtain b w2 where m: "context_menu_download E file_name sname index attempt
        download_selectors (sleep 1 w1) = (b, w2)"
      by (rule prod.exhaust)
    have nb: "\<not> b"
      using context_menu_download_never [OF assms(2), of file_name sname index attempt
          download_selectors "sleep 1 w1"] m by simp
    obtain b3 w3 where v: "file_view_download E fe file_name sname index attempt w2 = (b3, w3)"
      by (rule prod.exhaust)
    have "\<not> b3"
      using file_view_download_never [OF assms(2), of fe file_name sname index attempt w2] v
      by simp
    then show ?thesis using d Inr m nb v by (simp add: download_attempt_def)
  qed
qed

lemma attempt_loop_never:
  assumes "no_interrupt E" "\<forall>h p. \<not> file_exists E h p"
  shows "fst (attempt_loop E fe file_name sname index attempts w) = Inr False"
proof (induction attempts arbitrary: w)
  case Nil
  show ?case by simp
next
  case (Cons attempt rest)
  obtain r1 w1 where d: "download_attempt E fe file_name sname index attempt w = (r1, w1)"
    by (rule prod.exhaust)
  have "r1 = Inr False"
    using download_attempt_never [OF assms, of fe file_name sname index attempt w] d by simp
  then show ?case using d by (simp add: Cons.IH)
qed

lemma process_file_never:
  assumes "no_interrupt E" "\<forall>h p. \<not> file_exists E h p"
  shows "fst (process_file E i fe n w) = Inr n"
proof -
  obtain fn w1 where d: "derive_file_name E fe w = (fn, w1)"
    by (rule prod.exhaust)
  obtain r w2 where a: "attempt_download E fe (case_option [] id fn) i w1 = (r, w2)"
    by (rule prod.exhaust)
  have "fst (attempt_download E fe (case_option [] id fn) i w1) = Inr False"
    unfolding attempt_download_def using assms by (rule attempt_loop_never)
  then have "r = Inr False" using a by simp
  then show ?thesis using d a by (simp add: process_file_def)
qed

lemma process_files_never:
  assumes "no_interrupt E" "\<forall>h p. \<not> file_exists E h p"
  shows "fst (process_files E rows n w) = Inr n"
proof (induction rows arbitrary: w)
  case Nil
  show ?case by simp
next
  case (Cons row rest)
  obtain r w1 where p: "process_file E (fst row) (snd row) n w = (r, w1)"
    by (rule prod.exhaust)
  have "r = Inr n"
    using process_file_never [OF assms, of "fst row" "snd row" n w] p by simp
  then show ?case using p by (simp add: Cons.IH)
qed


section \<open>The log is only extended\<close>

lemma logs_record [simp]: "logs (record_call c w) = logs w"
  by (simp add: record_call_def)

lemma logs_sleep [simp]: "logs (sleep n w) = logs w"
  by (simp add: sleep_def)

lemma logs_log [simp]: "logs (log lvl m a w) = (lvl, m, a) # logs w"
  by (simp add: log_def)

lemma logs_ask [simp]: "logs (snd (ask E answer c w)) = logs w"
  by (simp add: ask_def)

lemma logs_invoke [simp]: "logs (snd (invoke E c w)) = logs w"
  by (simp add: invoke_def)

lemma logs_path_exists [simp]: "logs (snd (path_exists E p w)) = logs w"
  by (simp add: path_exists_def)

lemma poll_miss_keeps: "set (logs w) \<subseteq> set (logs (poll_miss E p w))"
  by (auto simp add: poll_miss_def note_partial_def path_exists_def split: bool.splits)

lemma verify_poll_keeps:
  "set (logs w) \<subseteq> set (logs (snd (verify_poll E p start_time timeout w)))"
proof (induction "nat (timeout - (int (clock w) - int start_time))" arbitrary: w
        rule: less_induct)
  case less
  show ?case
  proof (cases "int (clock w) - int start_time < timeout")
    case False
    then show ?thesis by (auto simp add: verify_poll_over)
  next
    case True
    show ?thesis
    proof (cases "file_exists E (hist w) p")
      case here: True
      show ?thesis by (auto simp add: verify_poll_hit [OF True here])
    next
      case absent: False
      have "set (logs (poll_miss E p w)) \<subseteq>
              set (logs (snd (verify_poll E p start_time timeout (poll_miss E p w))))"
        using True by (intro less.hyps) (simp add: clock_poll_miss)
      then show ?thesis
        using poll_miss_keeps [of w E p] by (simp add: verify_poll_miss [OF True absent])
    qed
  qed
qed

lemma verify_download_keeps:
  "set (logs w) \<subseteq> set (logs (snd (verify_download E filename timeout w)))"
  by (simp add: verify_download_def verify_poll_keeps split: option.splits
        del: sanitize_filename.simps)

lemma click_or_script_keeps: "logs (snd (click_or_script E x w)) = logs w"
  by (auto simp add: click_or_script_def invoke_def ask_def split: option.splits)

lemma find_download_option_keeps: "logs (snd (find_download_option E sel w)) = logs w"
  by (simp add: find_download_option_def)

lemma context_menu_download_keeps:
  "set (logs w) \<subseteq>
   set (logs (snd (context_menu_download E file_name sname index attempt sels w)))"
proof (induction sels arbitrary: w)
  case Nil
  show ?case by simp
next
  case (Cons sel rest)
  obtain r1 w1 where f: "find_download_option E sel w = (r1, w1)"
    by (rule prod.exhaust)
  have l1: "logs w1 = logs w" using find_download_option_keeps [of E sel w] f by simp
  show ?case
  proof (cases r1)
    case (Inl e)
    then show ?thesis using f l1 Cons.IH [of w1] by simp
  next
    case found: (Inr download_option)
    obtain r2 w2 where k: "click_or_script E download_option w1 = (r2, w2)"
      by (rule prod.exhaust)
    have l2: "logs w2 = logs w" using click_or_script_keeps [of E download_option w1] k l1 by simp
    show ?thesis
    proof (cases r2)
      case (Inl e)
      then show ?thesis using f found k l2 Cons.IH [of w2] by simp
    next
      case clicked: (Inr u)
      define w2' where "w2' = log INFO ''Initiated download for .cwa file {} ({}) on attempt {}''
             [Num (index + 1), Opt sname, Num attempt] w2"
      obtain b w3 where v: "verify_download E file_name 30 w2' = (b, w3)"
        by (rule prod.exhaust)
      have l3: "set (logs w) \<subseteq> set (logs w3)"
        using verify_download_keeps [of w2' E file_name 30] v l2 by (auto simp add: w2'_def)
      define w3' where "w3' = log WARNING ''Download verification failed for {} on attempt {}''
               [Opt sname, Num attempt] w3"
      have l4: "set (logs w) \<subseteq>
          set (logs (snd (context_menu_download E file_name sname index attempt rest w3')))"
        using l3 Cons.IH [of w3'] by (auto simp add: w3'_def)
      show ?thesis
        using f found k clicked v l3 l4 by (cases b) (simp_all add: w2'_def w3'_def)
    qed
  qed
qed

lemma file_view_download_keeps:
  "set (logs w) \<subseteq> set (logs (snd (file_view_download E fe file_name sname index attempt w)))"
proof -
  obtain r1 w1 where d: "invoke E (Double_click fe) w = (r1, w1)"
    by (rule prod.exhaust)
  have l1: "logs w1 = logs w" using logs_invoke [of E "Double_click fe" w] d by simp
  show ?thesis
  proof (cases r1)
    case (Inl e)
    then show ?thesis using d l1 by (auto simp add: file_view_download_def file_view_failed_def)
  next
    case opened: (Inr u1)
    obtain r2 w2 where f: "ask E (element E)
        (Find_element XPATH
           ''//button[contains(text(), 'Download') or @title='Download' or @aria-label='Download']'')
        (sleep 2 w1) = (r2, w2)"
      by (rule prod.exhaust)
    have l2: "logs w2 = logs w"
      using logs_ask [of E "element E" _ "sleep 2 w1"] f l1 by (simp add: ask_eq)
    show ?thesis
    proof (cases r2)
      case (Inl e)
      then show ?thesis
        using d opened f l2 by (auto simp add: file_view_download_def file_view_failed_def)
    next
      case found: (Inr download_btn)
      obtain r3 w3 where k: "click_or_script E download_btn w2 = (r3, w3)"
        by (rule prod.exhaust)
      have l3: "logs w3 = logs w" using click_or_script_keeps [of E download_btn w2] k l2 by simp
      show ?thesis
      proof (cases r3)
        case (Inl e)
        then show ?thesis
          using d opened f found k l3
          by (auto simp add: file_view_download_def file_view_failed_def)
      next
        case clicked: (Inr u3)
        define w3' where "w3' = log INFO
            ''Downloaded .cwa file {} ({}) via file view on attempt {}''
               [Num (index + 1), Opt sname, Num attempt] w3"
        obtain b w4 where v: "verify_download E file_name 30 w3' = (b, w4)"
          by (rule prod.exhaust)
        have l4: "set (logs w) \<subseteq> set (logs w4)"
          using verify_download_keeps [of w3' E file_name 30] v l3 by (auto simp add: w3'_def)
        show ?thesis
          using d opened f found k clicked v l4
          by (cases b)
             (auto simp add: file_view_download_def file_view_failed_def invoke_eq w3'_def
                split: prod.splits sum.splits)
      qed
    qed
  qed
qed

lemma close_menus_keeps: "logs (close_menus E w) = logs w"
  by (auto simp add: close_menus_def ask_eq invoke_eq split: prod.splits sum.splits)

lemma before_retry_keeps: "set (logs w) \<subseteq> set (logs (before_retry index sname attempt w))"
  by (auto simp add: before_retry_def)

lemma download_attempt_keeps:
  "set (logs w) \<subseteq> set (logs (snd (download_attempt E fe file_name sname index attempt w)))"
proof -
  obtain r1 w1 where d: "invoke E (Context_click fe) w = (r1, w1)"
    by (rule prod.exhaust)
  have l1: "logs w1 = logs w" using logs_invoke [of E "Context_click fe" w] d by simp
  show ?thesis
  proof (cases r1)
    case (Inl e)
    then show ?thesis using d l1 by (auto simp add: download_attempt_def)
  next
    case opened: (Inr u1)
    obtain b w2 where m: "context_menu_download E file_name sname index attempt
        download_selectors (sleep 1 w1) = (b, w2)"
      by (rule prod.exhaust)
    have l2: "set (logs w) \<subseteq> set (logs w2)"
      using context_menu_download_keeps [of "sleep 1 w1" E file_name sname index attempt
          download_selectors] m l1 by simp
    obtain b3 w3 where v: "file_view_download E fe file_name sname index attempt w2 = (b3, w3)"
      by (rule prod.exhaust)
    have l3: "set (logs w) \<subseteq> set (logs w3)"
      using file_view_download_keeps [of w2 E fe file_name sname index attempt] v l2 by auto
    show ?thesis using d opened m v l2 l3 by (cases b) (simp_all add: download_attempt_def)
  qed
qed

lemma attempt_loop_keeps:
  "set (logs w) \<subseteq> set (logs (snd (attempt_loop E fe file_name sname index attempts w)))"
proof (induction attempts arbitrary: w)
  case Nil
  show ?case by auto
next
  case (Cons attempt rest)
  obtain r1 w1 where d: "download_attempt E fe file_name sname index attempt w = (r1, w1)"
    by (rule prod.exhaust)
  have l1: "set (logs w) \<subseteq> set (logs w1)"
    using download_attempt_keeps [of w E fe file_name sname index attempt] d by simp
  define w2 where "w2 = before_retry index sname attempt (close_menus E w1)"
  have "set (logs w1) \<subseteq> set (logs w2)"
    using before_retry_keeps [of "close_menus E w1" index sname attempt]
    by (simp add: w2_def close_menus_keeps)
  then have l2: "set (logs w) \<subseteq>
      set (logs (snd (attempt_loop E fe file_name sname index rest w2)))"
    using l1 Cons.IH [of w2] by auto
  show ?case
  proof (cases r1)
    case (Inl e)
    then show ?thesis using d l1 by simp
  next
    case (Inr b)
    then show ?thesis using d l1 l2 by (cases b) (simp_all add: w2_def)
  qed
qed

lemma attempt_download_keeps:
  "set (logs w) \<subseteq> set (logs (snd (attempt_download E fe file_name index w)))"
  by (simp add: attempt_download_def attempt_loop_keeps del: sanitize_filename.simps)


lemma find_file_name_keeps:
  "set (logs w) \<subseteq> set (logs (snd (find_file_name E fe sels w)))"
proof (induction sels arbitrary: w)
  case Nil
  show ?case by simp
next
  case (Cons sel rest)
  have "set (logs w) \<subseteq> set (logs (snd (find_file_name E fe rest (record_call c w))))" for c
    using Cons.IH [of "record_call c w"] by simp
  moreover have "set (logs w) \<subseteq>
      set (logs (snd (find_file_name E fe rest (record_call c2 (record_call c w)))))" for c c2
    using Cons.IH [of "record_call c2 (record_call c w)"] by simp
  ultimately show ?case
    by (auto simp add: ask_eq split: prod.splits sum.splits)
qed

lemma name_from_attributes_keeps:
  "set (logs w) \<subseteq> set (logs (snd (name_from_attributes E fe attrs file_name w)))"
proof (induction attrs arbitrary: w file_name)
  case Nil
  show ?case by simp
next
  case (Cons attr rest)
  have "set (logs w) \<subseteq>
      set (logs (snd (name_from_attributes E fe rest v (record_call c w))))" for c v
    using Cons.IH [of "record_call c w" v] by simp
  then show ?case
    by (auto simp add: ask_eq split: prod.splits sum.splits option.splits)
qed

lemma derive_file_name_keeps:
  "set (logs w) \<subseteq> set (logs (snd (derive_file_name E fe w)))"
proof -
  obtain fn w1 where f: "find_file_name E fe name_selectors w = (fn, w1)"
    by (rule prod.exhaust)
  have l1: "set (logs w) \<subseteq> set (logs w1)"
    using find_file_name_keeps [of w E fe name_selectors] f by simp
  have "set (logs w1) \<subseteq> set (logs (snd (name_from_attributes E fe name_attributes fn w1)))"
    by (rule name_from_attributes_keeps)
  with l1 show ?thesis using f by (auto simp add: derive_file_name_def)
qed

lemma debug_html_keeps: "logs (debug_html E fe w) = logs w"
  by (simp add: debug_html_def)

lemma process_file_keeps:
  "set (logs w) \<subseteq> set (logs (snd (process_file E i fe n w)))"
proof -
  obtain fn w1 where d: "derive_file_name E fe w = (fn, w1)"
    by (rule prod.exhaust)
  have l1: "set (logs w) \<subseteq> set (logs w1)"
    using derive_file_name_keeps [of w E fe] d by simp
  obtain r w2 where a: "attempt_download E fe (case_option [] id fn) i w1 = (r, w2)"
    by (rule prod.exhaust)
  have l2: "set (logs w) \<subseteq> set (logs w2)"
    using attempt_download_keeps [of w1 E fe "case_option [] id fn" i] a l1 by auto
  show ?thesis
    using d a l1 l2
    by (cases r) (auto simp add: process_file_def debug_html_keeps split: bool.splits)
qed

lemma process_files_keeps:
  "set (logs w) \<subseteq> set (logs (snd (process_files E rows n w)))"
proof (induction rows arbitrary: w n)
  case Nil
  show ?case by simp
next
  case (Cons row rest)
  obtain r w1 where p: "process_file E (fst row) (snd row) n w = (r, w1)"
    by (rule prod.exhaust)
  have l1: "set (logs w) \<subseteq> set (logs w1)"
    using process_file_keeps [of w E "fst row" "snd row" n] p by simp
  show ?case
  proof (cases r)
    case (Inl e)
    then show ?thesis using p l1 by simp
  next
    case (Inr c)
    then show ?thesis using p l1 Cons.IH [of w1 c] by auto
  qed
qed

lemma process_search_results_keeps:
  "set (logs w) \<subseteq> set (logs (snd (process_search_results E files_found w)))"
proof -
  define w1 where "w1 = log INFO ''Found {} potential results for: {}''
      [Num (length files_found), Str (keyword w)] w"
  obtain r w2 where p: "process_files E (enumerate 0 (take 5 files_found)) 0 w1 = (r, w2)"
    by (rule prod.exhaust)
  have "set (logs w) \<subseteq> set (logs w2)"
    using process_files_keeps [of w1 E "enumerate 0 (take 5 files_found)" 0] p
    by (auto simp add: w1_def)
  then show ?thesis
    using p by (cases r) (auto simp add: process_search_results_def w1_def)
qed

lemma find_file_rows_keeps:
  "set (logs w) \<subseteq> set (logs (snd (find_file_rows E sels w)))"
proof (induction sels arbitrary: w)
  case Nil
  show ?case by simp
next
  case (Cons sel rest)
  have "set (logs w) \<subseteq> set (logs (snd (find_file_rows E rest (record_call c w))))" for c
    using Cons.IH [of "record_call c w"] by simp
  then show ?case
    by (auto simp add: ask_eq split: prod.splits sum.splits)
qed

lemma get_search_input_from_keeps:
  "logs (snd (get_search_input_from E sels w)) = logs w"
proof (induction sels arbitrary: w)
  case Nil
  show ?case by simp
next
  case (Cons sel rest)
  have "logs (snd (get_search_input_from E rest (record_call c w))) = logs w" for c
    using Cons.IH [of "record_call c w"] by simp
  then show ?case
    by (auto simp add: ask_eq split: prod.splits sum.splits)
qed

lemma click_clear_button_keeps:
  "set (logs w) \<subseteq> set (logs (snd (click_clear_button E sels w)))"
proof (induction sels arbitrary: w)
  case Nil
  show ?case by simp
next
  case (Cons sel rest)
  have "set (logs w) \<subseteq> set (logs (snd (click_clear_button E rest (record_call c w))))" for c
    using Cons.IH [of "record_call c w"] by simp
  moreover have "set (logs w) \<subseteq>
      set (logs (snd (click_clear_button E rest (record_call c2 (record_call c w)))))" for c c2
    using Cons.IH [of "record_call c2 (record_call c w)"] by simp
  ultimately show ?case
    by (auto simp add: ask_eq invoke_eq split: prod.splits sum.splits)
qed

lemma clear_search_context_keeps:
  "set (logs w) \<subseteq> set (logs (snd (clear_search_context E w)))"
proof -
  obtain b w1 where c: "click_clear_button E clear_selectors w = (b, w1)"
    by (rule prod.exhaust)
  have l1: "set (logs w) \<subseteq> set (logs w1)"
    using click_clear_button_keeps [of w E clear_selectors] c by simp
  obtain si w2 where g: "get_search_input E w1 = (si, w2)"
    by (rule prod.exhaust)
  have l2: "logs w2 = logs w1"
    using get_search_input_from_keeps [of E search_selectors w1] g
    by (simp add: get_search_input_def)
  show ?thesis
    using c g l1 l2
    by (cases b)
       (auto simp add: clear_search_context_def clear_failed_def invoke_eq
          split: option.splits prod.splits sum.splits)
qed

lemma search_body_keeps:
  "set (logs w) \<subseteq> set (logs (snd (search_body E w)))"
proof -
  obtain r0 w0 where c: "clear_search_context E w = (r0, w0)"
    by (rule prod.exhaust)
  have l0: "set (logs w) \<subseteq> set (logs w0)"
    using clear_search_context_keeps [of w E] c by simp
  obtain si w2 where g: "get_search_input E w0 = (si, w2)"
    by (rule prod.exhaust)
  have l2: "logs w2 = logs w0"
    using get_search_input_from_keeps [of E search_selectors w0] g
    by (simp add: get_search_input_def)
  have rows: "set (logs w) \<subseteq>
      set (logs (snd (process_search_results E (fst (find_file_rows E file_selectors m))
                        (snd (find_file_rows E file_selectors m)))))"
    if "set (logs w) \<subseteq> set (logs m)" for m
  proof -
    have "set (logs m) \<subseteq> set (logs (snd (find_file_rows E file_selectors m)))"
      by (rule find_file_rows_keeps)
    moreover have "set (logs (snd (find_file_rows E file_selectors m))) \<subseteq>
      set (logs (snd (process_search_results E (fst (find_file_rows E file_selectors m))
                        (snd (find_file_rows E file_selectors m)))))"
      by (rule process_search_results_keeps)
    ultimately show ?thesis using that by blast
  qed
  show ?thesis
  proof (cases r0)
    case (Inl e)
    then show ?thesis using c l0 by (simp add: search_body_def)
  next
    case (Inr cleared)
    show ?thesis
    proof (cases si)
      case None
      then show ?thesis using c Inr g l0 l2 by (auto simp add: search_body_def)
    next
      case (Some search_input)
      obtain r3 w3 where k1: "invoke E (Send_keys search_input (keyword w2)) w2 = (r3, w3)"
        by (rule prod.exhaust)
      have l3: "logs w3 = logs w0" using k1 l2 by (simp add: invoke_eq)
      show ?thesis
      proof (cases r3)
        case (Inl e)
        then show ?thesis using c Inr g Some k1 l0 l3 by (simp add: search_body_def)
      next
        case sent: (Inr u3)
        obtain r4 w4 where k2: "invoke E (Send_key search_input RETURN) w3 = (r4, w4)"
          by (rule prod.exhaust)
        have l4: "logs w4 = logs w0" using k2 l3 by (simp add: invoke_eq)
        show ?thesis
        proof (cases r4)
          case (Inl e)
          then show ?thesis using c Inr g Some k1 sent k2 l0 l4 by (simp add: search_body_def)
        next
          case entered: (Inr u4)
          define m where "m = sleep 5 (log INFO ''Searching for: {}'' [Str (keyword w4)] w4)"
          have lm: "set (logs w) \<subseteq> set (logs m)" using l0 l4 by (auto simp add: m_def)
          obtain ff w5 where f: "find_file_rows E file_selectors m = (ff, w5)"
            by (rule prod.exhaust)
          have "set (logs w) \<subseteq> set (logs (snd (process_search_results E ff w5)))"
            using rows [OF lm] f by simp
          then show ?thesis
            using c Inr g Some k1 sent k2 entered f [unfolded m_def]
            by (simp add: search_body_def)
        qed
      qed
    qed
  qed
qed

lemma search_and_download_keeps:
  "set (logs w) \<subseteq> set (logs (snd (search_and_download E w)))"
proof -
  obtain r w1 where b: "search_body E w = (r, w1)"
    by (rule prod.exhaust)
  have "set (logs w) \<subseteq> set (logs w1)" using search_body_keeps [of w E] b by simp
  then show ?thesis
    using b by (cases r) (auto simp add: search_and_download_def)
qed

lemma keyword_step_keeps:
  "set (logs w) \<subseteq> set (logs (snd (keyword_step E kw w)))"
proof -
  obtain r w1 where s: "search_and_download E (w\<lparr>keyword := kw\<rparr>) = (r, w1)"
    by (rule prod.exhaust)
  have l: "set (logs w) \<subseteq> set (logs w1)"
    using search_and_download_keeps [of "w\<lparr>keyword := kw\<rparr>" E] s by simp
  show ?thesis
  proof (cases r)
    case (Inl e)
    then show ?thesis
      using s l
      by (auto simp add: keyword_step_def call_method_def DropboxDownloader_methods_def)
  next
    case (Inr b)
    then show ?thesis
      using s l
      by (cases b)
         (auto simp add: keyword_step_def call_method_def DropboxDownloader_methods_def)
  qed
qed

lemma keyword_loop_keeps:
  "set (logs w) \<subseteq> set (logs (snd (keyword_loop E kws w)))"
proof (induction kws arbitrary: w)
  case Nil
  show ?case by simp
next
  case (Cons kw rest)
  obtain r w1 where s: "keyword_step E kw w = (r, w1)"
    by (rule prod.exhaust)
  have l: "set (logs w) \<subseteq> set (logs w1)" using keyword_step_keeps [of w E kw] s by simp
  show ?case
  proof (cases r)
    case (Inl e)
    then show ?thesis using s l by simp
  next
    case (Inr u)
    then show ?thesis using s l Cons.IH [of w1] by auto
  qed
qed


section \<open>What is logged, and that the loops go on\<close>

lemma attempt_numbers: "[1 ..< max_attempts + 1] = [1, 2]"
  by (simp add: max_attempts_def upt_conv_Cons)

lemma download_attempt_fault:
  assumes "no_interrupt E" "raises E (hist w) (Context_click fe) = Some e"
  shows "download_attempt E fe file_name sname index attempt w =
           (Inr False,
            log WARNING ''Download attempt {} failed for file {} ({}): {}''
              [Num attempt, Num (index + 1), Opt sname, Exn e]
              (record_call (Context_click fe) w))"
proof -
  have "is_Exception e" using assms by (rule no_interrupt_raises)
  then show ?thesis
    using assms(2) by (simp add: download_attempt_def invoke_def ask_def)
qed

lemma attempt_download_fault_logged:
  assumes "no_interrupt E" "raises E (hist w) (Context_click fe) = Some e"
  shows "(WARNING, ''Download attempt {} failed for file {} ({}): {}'',
          [Num 1, Num (index + 1), Opt (sanitize_filename (Some file_name)), Exn e])
         \<in> set (logs (snd (attempt_download E fe file_name index w)))"
proof -
  define sname where "sname = sanitize_filename (Some file_name)"
  define w1 where "w1 = log WARNING ''Download attempt {} failed for file {} ({}): {}''
      [Num 1, Num (index + 1), Opt sname, Exn e] (record_call (Context_click fe) w)"
  define w2 where "w2 = before_retry index sname 1 (close_menus E w1)"
  have d: "download_attempt E fe file_name sname index 1 w = (Inr False, w1)"
    unfolding w1_def using assms by (rule download_attempt_fault)
  have s1: "set (logs w1) \<subseteq> set (logs w2)"
    using before_retry_keeps [of "close_menus E w1" index sname 1]
    by (simp add: w2_def close_menus_keeps)
  have s2: "set (logs w2) \<subseteq> set (logs (snd (attempt_loop E fe file_name sname index [2] w2)))"
    by (rule attempt_loop_keeps)
  have e1: "(WARNING, ''Download attempt {} failed for file {} ({}): {}'',
          [Num 1, Num (index + 1), Opt sname, Exn e]) \<in> set (logs w1)"
    by (simp add: w1_def)
  have eq: "attempt_download E fe file_name index w =
      attempt_loop E fe file_name sname index [2] w2"
  proof -
    have "attempt_download E fe file_name index w =
        attempt_loop E fe file_name sname index (1 # [2]) w"
      unfolding attempt_download_def attempt_numbers sname_def ..
    also have "\<dots> = attempt_loop E fe file_name sname index [2] w2"
      by (simp only: attempt_loop.simps(2) d case_prod_conv sum.case bool.case w2_def)
    finally show ?thesis .
  qed
  have "(WARNING, ''Download attempt {} failed for file {} ({}): {}'',
          [Num 1, Num (index + 1), Opt sname, Exn e])
        \<in> set (logs (snd (attempt_loop E fe file_name sname index [2] w2)))"
    using e1 s1 s2 by blast
  then have "(WARNING, ''Download attempt {} failed for file {} ({}): {}'',
          [Num 1, Num (index + 1), Opt sname, Exn e])
        \<in> set (logs (snd (attempt_download E fe file_name index w)))"
    by (simp only: eq)
  then show ?thesis by (simp only: sname_def)
qed

lemma keyword_step_logged:
  assumes "no_interrupt E"
  shows "(INFO, ''Successfully processed keyword: {}'', [Str kw])
           \<in> set (logs (snd (keyword_step E kw w)))
       \<or> (ERROR, ''Failed to process keyword: {}'', [Str kw])
           \<in> set (logs (snd (keyword_step E kw w)))"
proof -
  obtain r w1 where s: "search_and_download E (w\<lparr>keyword := kw\<rparr>) = (r, w1)"
    by (rule prod.exhaust)
  have "\<not> isl r" using search_and_download_total [OF assms, of "w\<lparr>keyword := kw\<rparr>"] s by simp
  then obtain b where "r = Inr b" by (cases r) simp_all
  then show ?thesis
    using s
    by (cases b) (simp_all add: keyword_step_def call_method_def DropboxDownloader_methods_def)
qed

lemma keyword_loop_step:
  assumes "no_interrupt E"
  shows "keyword_loop E (kw # kws) w = keyword_loop E kws (snd (keyword_step E kw w))"
proof -
  obtain r w1 where s: "keyword_step E kw w = (r, w1)"
    by (rule prod.exhaust)
  have "\<not> isl r" using keyword_step_total [OF assms, of kw w] s by simp
  then obtain u where "r = Inr u" by (cases r) simp_all
  then show ?thesis using s by simp
qed

lemma keyword_loop_logs_all:
  assumes "no_interrupt E"
  shows "kw \<in> set kws \<Longrightarrow>
     (INFO, ''Successfully processed keyword: {}'', [Str kw])
         \<in> set (logs (snd (keyword_loop E kws w)))
     \<or> (ERROR, ''Failed to process keyword: {}'', [Str kw])
         \<in> set (logs (snd (keyword_loop E kws w)))"
proof (induction kws arbitrary: w)
  case Nil
  then show ?case by simp
next
  case (Cons k rest)
  have step: "keyword_loop E (k # rest) w = keyword_loop E rest (snd (keyword_step E k w))"
    using assms by (rule keyword_loop_step)
  show ?case
  proof (cases "kw = k")
    case True
    have "set (logs (snd (keyword_step E k w))) \<subseteq>
        set (logs (snd (keyword_loop E rest (snd (keyword_step E k w)))))"
      by (rule keyword_loop_keeps)
    then show ?thesis
      using keyword_step_logged [OF assms, of k w] True step by auto
  next
    case False
    then have "kw \<in> set rest" using Cons.prems by simp
    then show ?thesis using Cons.IH step by simp
  qed
qed


lemma search_and_download_fault:
  assumes "no_interrupt E" "search_body E w = (Inl e, w1)"
  shows "search_and_download E w =
           (Inr False,
            log ERROR ''Error searching for keyword '{}': {}'' [Str (keyword w1), Exn e] w1)"
proof -
  have "is_Exception e" using search_body_exception [OF assms(1), of w e] assms(2) by simp
  then show ?thesis using assms(2) by (simp add: search_and_download_def)
qed

lemma keyword_step_failed:
  assumes "search_and_download E (w\<lparr>keyword := kw\<rparr>) = (Inr False, w1)"
  shows "keyword_step E kw w =
           (Inr (), sleep DELAY_BETWEEN_SEARCHES
                      (log ERROR ''Failed to process keyword: {}'' [Str kw] w1))"
  using assms by (simp add: keyword_step_def call_method_def DropboxDownloader_methods_def)

text \<open>
  Claim C8. When no call is interrupted from the keyboard, whatever else the driver
  raises: the download attempt for a candidate returns a boolean and raises
  nothing; when it returns \<open>False\<close> the last log entry is the warning that the file
  could not be downloaded after the two attempts; the loop over the candidates
  raises nothing and looks into every candidate of its list; the search for a keyword
  and the loop over the keywords raise nothing. A fault of the driver at the right
  click makes the attempt a failure (\<open>False\<close>) and is logged as a warning with the
  exception, and that warning is still in the log when \<open>attempt_download\<close> returns.
  When no file ever arrives in the folder, every download attempt returns \<open>False\<close>
  and the download counter is not changed by any candidate. The loop over the
  keywords goes on after each keyword with the state that keyword left, nothing
  is removed from the log, and for every keyword of the list the log holds at the
  end the entry that it was processed or the entry that it failed. A fault that
  leaves the body of the search is logged as an error and makes the search return
  \<open>False\<close>, and a search that returns \<open>False\<close> is logged as a failed keyword before
  the pause and the next keyword.
\<close>

theorem candidate_failures_do_not_stop_the_run:
  assumes "no_interrupt E"
  shows "\<not> isl (fst (attempt_download E fe file_name i w))
     \<and> (fst (attempt_download E fe file_name i w) = Inr False \<longrightarrow>
          hd (logs (snd (attempt_download E fe file_name i w))) =
            (WARNING, ''Could not download .cwa file {} ({}) after {} attempts'',
             [Num (i + 1), Opt (sanitize_filename (Some file_name)), Num 2]))
     \<and> \<not> isl (fst (process_files E rows n w))
     \<and> (\<forall>row \<in> set rows.
           Find_child (snd row) CSS_SELECTOR ''.brws-file-name-cell-filename''
             \<in> set (hist (snd (process_files E rows n w))))
     \<and> \<not> isl (fst (search_and_download E w))
     \<and> \<not> isl (fst (keyword_loop E kws w))
     \<and> (raises E (hist w) (Context_click fe) = Some e \<longrightarrow>
          download_attempt E fe file_name sname i attempt w =
            (Inr False,
             log WARNING ''Download attempt {} failed for file {} ({}): {}''
               [Num attempt, Num (i + 1), Opt sname, Exn e]
               (record_call (Context_click fe) w))
          \<and> (WARNING, ''Download attempt {} failed for file {} ({}): {}'',
              [Num 1, Num (i + 1), Opt (sanitize_filename (Some file_name)), Exn e])
             \<in> set (logs (snd (attempt_download E fe file_name i w))))
     \<and> ((\<forall>h p. \<not> file_exists E h p) \<longrightarrow>
          fst (attempt_download E fe file_name i w) = Inr False
          \<and> fst (process_files E rows n w) = Inr n)
     \<and> keyword_loop E (first_kw # kws) w = keyword_loop E kws (snd (keyword_step E first_kw w))
     \<and> set (logs w) \<subseteq> set (logs (snd (process_files E rows n w)))
     \<and> set (logs w) \<subseteq> set (logs (snd (keyword_loop E kws w)))
     \<and> (\<forall>kw \<in> set kws.
           (INFO, ''Successfully processed keyword: {}'', [Str kw])
             \<in> set (logs (snd (keyword_loop E kws w)))
           \<or> (ERROR, ''Failed to process keyword: {}'', [Str kw])
             \<in> set (logs (snd (keyword_loop E kws w))))
     \<and> (search_body E w = (Inl e, w1) \<longrightarrow>
          search_and_download E w =
            (Inr False,
             log ERROR ''Error searching for keyword '{}': {}'' [Str (keyword w1), Exn e] w1))
     \<and> (search_and_download E (w\<lparr>keyword := first_kw\<rparr>) = (Inr False, w1) \<longrightarrow>
          keyword_step E first_kw w =
            (Inr (), sleep DELAY_BETWEEN_SEARCHES
                       (log ERROR ''Failed to process keyword: {}'' [Str first_kw] w1)))"
proof (intro conjI impI ballI)
  show "\<not> isl (fst (attempt_download E fe file_name i w))"
    unfolding attempt_download_def using assms by (rule attempt_loop_total)
  show "hd (logs (snd (attempt_download E fe file_name i w))) =
            (WARNING, ''Could not download .cwa file {} ({}) after {} attempts'',
             [Num (i + 1), Opt (sanitize_filename (Some file_name)), Num 2])"
    if "fst (attempt_download E fe file_name i w) = Inr False"
    using that attempt_loop_failure_logged
      [of E fe file_name "sanitize_filename (Some file_name)" i "[1 ..< max_attempts + 1]" w]
    by (simp add: attempt_download_def max_attempts_def del: sanitize_filename.simps)
  show "\<not> isl (fst (process_files E rows n w))"
    using assms by (rule process_files_total)
  show "Find_child (snd row) CSS_SELECTOR ''.brws-file-name-cell-filename''
             \<in> set (hist (snd (process_files E rows n w)))" if "row \<in> set rows" for row
    using assms that by (rule process_files_visits_all)
  show "\<not> isl (fst (search_and_download E w))"
    using assms by (rule search_and_download_total)
  show "\<not> isl (fst (keyword_loop E kws w))"
    using assms by (rule keyword_loop_total)
  show "download_attempt E fe file_name sname i attempt w =
            (Inr False,
             log WARNING ''Download attempt {} failed for file {} ({}): {}''
               [Num attempt, Num (i + 1), Opt sname, Exn e]
               (record_call (Context_click fe) w))"
    if "raises E (hist w) (Context_click fe) = Some e"
    using assms that by (rule download_attempt_fault)
  show "(WARNING, ''Download attempt {} failed for file {} ({}): {}'',
              [Num 1, Num (i + 1), Opt (sanitize_filename (Some file_name)), Exn e])
             \<in> set (logs (snd (attempt_download E fe file_name i w)))"
    if "raises E (hist w) (Context_click fe) = Some e"
    using assms that by (rule attempt_download_fault_logged)
  show "fst (attempt_download E fe file_name i w) = Inr False"
    if "\<forall>h p. \<not> file_exists E h p"
    unfolding attempt_download_def using assms that by (rule attempt_loop_never)
  show "fst (process_files E rows n w) = Inr n" if "\<forall>h p. \<not> file_exists E h p"
    using assms that by (rule process_files_never)
  show "keyword_loop E (first_kw # kws) w =
      keyword_loop E kws (snd (keyword_step E first_kw w))"
    using assms by (rule keyword_loop_step)
  show "set (logs w) \<subseteq> set (logs (snd (process_files E rows n w)))"
    by (rule process_files_keeps)
  show "set (logs w) \<subseteq> set (logs (snd (keyword_loop E kws w)))"
    by (rule keyword_loop_keeps)
  show "(INFO, ''Successfully processed keyword: {}'', [Str kw])
             \<in> set (logs (snd (keyword_loop E kws w)))
           \<or> (ERROR, ''Failed to process keyword: {}'', [Str kw])
             \<in> set (logs (snd (keyword_loop E kws w)))" if "kw \<in> set kws" for kw
    using assms that by (rule keyword_loop_logs_all)
  show "search_and_download E w =
            (Inr False,
             log ERROR ''Error searching for keyword '{}': {}'' [Str (keyword w1), Exn e] w1)"
    if "search_body E w = (Inl e, w1)"
    using assms that by (rule search_and_download_fault)
  show "keyword_step E first_kw w =
            (Inr (), sleep DELAY_BETWEEN_SEARCHES
                       (log ERROR ''Failed to process keyword: {}'' [Str first_kw] w1))"
    if "search_and_download E (w\<lparr>keyword := first_kw\<rparr>) = (Inr False, w1)"
    using that by (rule keyword_step_failed)
qed

lemma no_interrupt_env_no_trigger: "no_interrupt env_no_trigger"
  by (simp add: no_interrupt_def env_no_trigger_def base_env_def)

lemma no_interrupt_env_click_fails: "no_interrupt env_click_fails"
  by (simp add: no_interrupt_def env_click_fails_def base_env_def split: call.splits)

lemma both_keywords_processed:
  "(case keyword_loop env_no_trigger [''a.cwa'', ''b.cwa''] start of
      (outcome, w) \<Rightarrow>
        outcome = Inr ()
        \<and> (INFO, ''Successfully processed keyword: {}'', [Str ''a.cwa'']) \<in> set (logs w)
        \<and> (INFO, ''Successfully processed keyword: {}'', [Str ''b.cwa'']) \<in> set (logs w))"
  by (simp add: main_defs search_defs call_defs env_no_trigger_def base_env_def start_def
        is_find_element_def)

theorem candidate_failures_do_not_stop_the_run_witness:
  "no_interrupt env_no_trigger
   \<and> fst (attempt_download env_no_trigger 7 ''a.cwa'' 0 start) = Inr False
   \<and> hd (logs (snd (attempt_download env_no_trigger 7 ''a.cwa'' 0 start))) =
        (WARNING, ''Could not download .cwa file {} ({}) after {} attempts'',
         [Num 1, Opt (Some ''a.cwa''), Num 2])
   \<and> \<not> isl (fst (process_files env_no_trigger [(0, 7), (1, 8)] 0 start))
   \<and> Find_child 8 CSS_SELECTOR ''.brws-file-name-cell-filename''
        \<in> set (hist (snd (process_files env_no_trigger [(0, 7), (1, 8)] 0 start)))
   \<and> \<not> isl (fst (search_and_download env_no_trigger start))
   \<and> \<not> isl (fst (keyword_loop env_no_trigger [''a.cwa'', ''b.cwa''] start))
   \<and> fst (process_files env_no_trigger [(0, 7), (1, 8)] 0 start) = Inr 0
   \<and> (INFO, ''Successfully processed keyword: {}'', [Str ''b.cwa''])
        \<in> set (logs (snd (keyword_loop env_no_trigger [''a.cwa'', ''b.cwa''] start)))
   \<and> no_interrupt env_click_fails
   \<and> raises env_click_fails (hist start) (Context_click 7) = Some WebDriverException
   \<and> download_attempt env_click_fails 7 ''a.cwa'' (Some ''a.cwa'') 0 1 start =
        (Inr False,
         log WARNING ''Download attempt {} failed for file {} ({}): {}''
           [Num 1, Num 1, Opt (Some ''a.cwa''), Exn WebDriverException]
           (record_call (Context_click 7) start))
   \<and> (WARNING, ''Download attempt {} failed for file {} ({}): {}'',
        [Num 1, Num 1, Opt (Some ''a.cwa''), Exn WebDriverException])
       \<in> set (logs (snd (attempt_download env_click_fails 7 ''a.cwa'' 0 start)))"
proof -
  note t = candidate_failures_do_not_stop_the_run [OF no_interrupt_env_no_trigger,
      where fe = 7 and file_name = "''a.cwa''" and i = 0 and w = start
        and rows = "[(0, 7), (1, 8)]" and n = 0 and kws = "[''a.cwa'', ''b.cwa'']"]
  note u = candidate_failures_do_not_stop_the_run [OF no_interrupt_env_click_fails,
      where fe = 7 and file_name = "''a.cwa''" and i = 0 and w = start
        and e = WebDriverException and sname = "Some ''a.cwa''" and attempt = 1]
  have never: "\<forall>h p. \<not> file_exists env_no_trigger h p"
    by (simp add: env_no_trigger_def base_env_def)
  have r: "raises env_click_fails (hist start) (Context_click 7) = Some WebDriverException"
    by (simp add: env_click_fails_def base_env_def)
  have k: "(INFO, ''Successfully processed keyword: {}'', [Str ''b.cwa''])
        \<in> set (logs (snd (keyword_loop env_no_trigger [''a.cwa'', ''b.cwa''] start)))"
    using both_keywords_processed by (simp add: case_prod_unfold)
  show ?thesis
    using t u never r k no_interrupt_env_no_trigger no_interrupt_env_click_fails
    by (simp add: sanitize_a_cwa del: sanitize_filename.simps)
qed

section \<open>A list without a match is gone through once\<close>


lemma is_lookup_simps [simp]:
  "is_lookup (Wait_clickable b s)" "is_lookup (Find_element b s)"
  "is_lookup (Find_elements b s)" "is_lookup (Find_child x b s)"
  "\<not> is_lookup (Text x)" "\<not> is_lookup (Click x)" "\<not> is_lookup (Execute_script s x)"
  "\<not> is_lookup (Path_exists p)" "\<not> is_lookup (Sleep n)" "\<not> is_lookup Back"
  by (simp_all add: is_lookup_def)

lemma is_lookup_download [simp]: "is_lookup (download_lookup sel)"
  by (simp add: download_lookup_def)












section \<open>The loops over selector lists\<close>













end
